theory Spec2Isabelle
  imports Complex_Main "HOL-Library.Word" "HOL-Library.Multiset"
begin

text \<open>
  A model of gltfio's \<open>MorphHelper\<close> (libs/gltfio/src/MorphHelper.h and MorphHelper.cpp):
  the selection of the four primary morph targets, the cache of vertex buffers keyed by
  entity and selection, and the synthesis of a vertex buffer for one selection.
  A null dereference and a read past the end of a list of the input end the process; they
  are the values of type \<open>fatal\<close>, and a function that can end so returns \<open>fatal + 'a\<close>.
  The writes of \<open>createVertexBuffer\<close> into its fixed array are not checked in the source and
  are not checked here.
\<close>

section \<open>Data model\<close>

subsection \<open>Small vectors\<close>

text \<open>
  \<open>ubyte4\<close> and \<open>float4\<close> of the math library are four-component vectors with an
  index operator. The weights are only compared and copied, never computed with, so a
  \<open>float\<close> is modelled by a \<open>real\<close>: the floats other than NaN are ordered as the reals
  are, and a NaN weight is outside the model.
\<close>

type_synonym u8 = "8 word"
type_synonym u32 = "32 word"

datatype 'a vec4 = Vec4 (vx: 'a) (vy: 'a) (vz: 'a) (vw: 'a)

type_synonym ubyte4 = "u8 vec4"
type_synonym float4 = "real vec4"

text \<open>\<open>v[i]\<close> read and written; every caller below uses an index below 4.\<close>

definition vec_get :: "'a vec4 \<Rightarrow> nat \<Rightarrow> 'a" where
  "vec_get v i = (if i = 0 then vx v else if i = 1 then vy v else if i = 2 then vz v else vw v)"

definition vec_set :: "'a vec4 \<Rightarrow> nat \<Rightarrow> 'a \<Rightarrow> 'a vec4" where
  "vec_set v i a =
     (if i = 0 then Vec4 a (vy v) (vz v) (vw v)
      else if i = 1 then Vec4 (vx v) a (vz v) (vw v)
      else if i = 2 then Vec4 (vx v) (vy v) a (vw v)
      else Vec4 (vx v) (vy v) (vz v) a)"

definition vec_list :: "'a vec4 \<Rightarrow> 'a list" where
  "vec_list v = [vx v, vy v, vz v, vw v]"

text \<open>Modelled from the spec: \<open>operator==\<close> of \<open>ubyte4\<close> (math/vec4.h), which compares
  the four components position by position.\<close>

definition ubyte4_eq :: "ubyte4 \<Rightarrow> ubyte4 \<Rightarrow> bool" where
  "ubyte4_eq a b = (vx a = vx b \<and> vy a = vy b \<and> vz a = vz b \<and> vw a = vw b)"

definition kUnused :: u8 where
  "kUnused = 0xff"

subsection \<open>The cache key and value (MorphHelper.h)\<close>

type_synonym Entity = nat

record MorphKey =
  targetEntity :: Entity
  primaryIndices :: ubyte4

definition MorphKeyEqualFn :: "MorphKey \<Rightarrow> MorphKey \<Rightarrow> bool" where
  "MorphKeyEqualFn k1 k2 =
     (targetEntity k1 = targetEntity k2 \<and> ubyte4_eq (primaryIndices k1) (primaryIndices k2))"

datatype PrimitiveType = POINTS | LINES | TRIANGLES

record IndexBuffer =
  ibName :: nat
  indexCount :: nat

text \<open>A \<open>VertexBuffer*\<close> is the position of the object among the vertex buffers the
  engine has built.\<close>

type_synonym VertexBufferPtr = nat

record Primitive =
  vertices :: VertexBufferPtr
  indices :: IndexBuffer
  ptype :: PrimitiveType

type_synonym MorphValue = "Primitive list"

subsection \<open>The glTF data the helper reads\<close>

text \<open>
  Modelled from the spec: the types of cgltf.h, GltfEnums.h and FFilamentAsset.h, which
  the sources include and do not contain. Each record has the fields the helper reads.
  An attribute's \<open>index\<close> is the number after its name (\<open>TEXCOORD_1\<close>), a natural number;
  \<open>gltfType\<close> is what \<open>getPrimitiveType(prim.type, _)\<close> yields.
\<close>

datatype cgltf_attribute_type =
    cgltf_attribute_type_invalid
  | cgltf_attribute_type_position
  | cgltf_attribute_type_normal
  | cgltf_attribute_type_tangent
  | cgltf_attribute_type_texcoord
  | cgltf_attribute_type_color
  | cgltf_attribute_type_joints
  | cgltf_attribute_type_weights

datatype AttributeType = SHORT4 | USHORT2 | UBYTE4 | FLOAT2 | FLOAT3 | FLOAT4 | HALF2 | HALF4

text \<open>
  An accessor, as far as the helper looks at it: \<open>fatype\<close> is what
  \<open>getElementType(accessor->type, accessor->component_type, _)\<close> yields and \<open>binding\<close> the
  bytes between \<open>computeBindingOffset\<close> and \<open>computeBindingSize\<close> further in the
  accessor's buffer (the three functions are declared, not defined, in the sources).
\<close>

record cgltf_accessor =
  acount :: nat
  stride :: nat
  normalized :: bool
  fatype :: AttributeType
  binding :: "u8 list"

record cgltf_attribute =
  atype :: cgltf_attribute_type
  aindex :: nat
  adata :: "cgltf_accessor option"

record cgltf_material =
  unlit :: bool

record cgltf_primitive =
  gltfType :: PrimitiveType
  attributes :: "cgltf_attribute list"
  material :: "cgltf_material option"
  targets :: "cgltf_attribute list list"

record cgltf_mesh =
  primitives :: "cgltf_primitive list"

record cgltf_node =
  mesh :: "cgltf_mesh option"

datatype UvSet = UNUSED | UvSet_UV0 | UvSet_UV1

text \<open>\<open>UvMap\<close> is an array of \<open>UvMapSize\<close> entries: \<open>UvMapSize\<close> is its length. In the
  asset, \<open>mNodeMap\<close> stands for the helper's own map from entities to nodes, which its
  constructor fills from the asset and nothing changes afterwards.\<close>

type_synonym UvMap = "UvSet list"

record AssetPrimitive =
  uvmap :: UvMap
  assetIndices :: IndexBuffer

record FFilamentAsset =
  mNodeMap :: "Entity \<rightharpoonup> cgltf_node"
  mMeshCache :: "cgltf_mesh \<rightharpoonup> AssetPrimitive list"

subsection \<open>Vertex buffers and the engine\<close>

text \<open>
  Modelled from the spec: the GPU buffer backend and the renderable manager (the Filament
  API, not part of the sources). A vertex buffer is what its builder was given: the vertex
  count, the buffer count, one declaration per attribute and one payload per slot. The
  renderable instance of an entity is identified with the entity.
\<close>

datatype VertexAttribute =
    POSITION | TANGENTS | COLOR | UV0 | UV1 | BONE_INDICES | BONE_WEIGHTS
  | MORPH_POSITION nat | MORPH_TANGENTS nat

text \<open>The three lambdas of \<open>createVertexBuffer\<close> that allocate a payload.\<close>

datatype BufferDescriptor =
    ClonedBuffer "u8 list"
  | DummyBuffer "u8 list"
  | TangentsBuffer "nat option"

record AttributeDecl =
  bufferIndex :: nat
  attributeType :: AttributeType
  byteOffset :: nat
  byteStride :: nat
  declNormalized :: bool

type_synonym Builder = "VertexAttribute \<rightharpoonup> AttributeDecl"

record VertexBuffer =
  vertexCount :: u32
  bufferCount :: nat
  declared :: Builder
  bufferAt :: "BufferDescriptor option list"

datatype RenderableCall =
    SetGeometryAt Entity nat PrimitiveType VertexBufferPtr IndexBuffer nat nat
  | SetMorphWeights Entity float4

text \<open>
  The helper's members (\<open>mPartiallySortedWeights\<close>, \<open>mMorphTable\<close>) together with what it
  changes outside itself: the vertex buffers the engine has built for it, the ones the
  engine was asked to destroy, and the calls made on the renderable manager. The table is
  kept in insertion order and searched with \<open>MorphKeyEqualFn\<close>.
\<close>

record MorphHelper =
  mPartiallySortedWeights :: "real list"
  mMorphTable :: "(MorphKey \<times> MorphValue) list"
  built :: "VertexBuffer list"
  destroyed :: "VertexBufferPtr list"
  renderableCalls :: "RenderableCall list"

text \<open>What ends the process: a null or dangling read.\<close>

datatype fatal =
    NullNode | NullMesh | MeshNotCached | PrimitiveOutOfRange
  | NullAccessor | UninitializedSemantic | TargetOutOfRange

section \<open>The weight selector (applyWeights, lines 68 to 92)\<close>

text \<open>
  \<open>std::nth_element(begin, begin + 4, end, >)\<close> leaves a permutation whose first four
  entries are the four largest; it is modelled by the descending sort, one such
  permutation. Lemma \<open>primaryLoop_any_nth_element\<close> shows that the scan below does not
  depend on which one is taken: \<open>nth_element_post\<close> is what the C++ standard leaves of the
  call, a permutation none of whose later entries exceeds one of the first four.
\<close>

definition nth_element :: "real list \<Rightarrow> real list" where
  "nth_element xs = rev (sort xs)"

definition nth_element_post :: "real list \<Rightarrow> real list \<Rightarrow> bool" where
  "nth_element_post xs ys =
     (mset ys = mset xs \<and> list_all (\<lambda>a. list_all (\<lambda>b. b \<le> a) (drop 4 ys)) (take 4 ys))"

definition partiallySorted :: "real list \<Rightarrow> real list" where
  "partiallySorted weights =
     (let cnt = min (length weights) 255;
          sortedw = nth_element (take cnt weights)
      in sortedw @ replicate (4 - length sortedw) (- 1))"

definition is_primary :: "real list \<Rightarrow> real \<Rightarrow> bool" where
  "is_primary sortedw w =
     (w > 0 \<and> (w = sortedw ! 0 \<or> w = sortedw ! 1 \<or> w = sortedw ! 2 \<or> w = sortedw ! 3))"

function primaryLoop ::
  "real list \<Rightarrow> real list \<Rightarrow> nat \<Rightarrow> nat \<Rightarrow> nat \<Rightarrow> nat \<Rightarrow> ubyte4 \<Rightarrow> ubyte4" where
  "primaryLoop weights sortedw cnt primaryCount index primary pidx =
     (if index < cnt \<and> primary < primaryCount then
        (if is_primary sortedw (weights ! index)
         then primaryLoop weights sortedw cnt primaryCount (index + 1) (primary + 1)
                (vec_set pidx primary (of_nat index))
         else primaryLoop weights sortedw cnt primaryCount (index + 1) primary pidx)
      else pidx)"
  by pat_completeness auto
termination
  by (relation "measure (\<lambda>(weights, sortedw, cnt, primaryCount, index, primary, pidx). cnt - index)")
    auto

definition findPrimaryIndices :: "real list \<Rightarrow> ubyte4" where
  "findPrimaryIndices weights =
     (let cnt = min (length weights) 255;
          sortedw = partiallySorted weights;
          primaryCount = min 4 cnt
      in primaryLoop weights sortedw cnt primaryCount 0 0 (Vec4 kUnused kUnused kUnused kUnused))"

text \<open>The indices the scan accepts, in scan order, and the tuple's entries that are
  not the sentinel.\<close>

definition qualifying :: "real list \<Rightarrow> nat list" where
  "qualifying weights =
     filter (\<lambda>i. is_primary (partiallySorted weights) (weights ! i))
       [0..<min (length weights) 255]"

text \<open>The indices below the clamped count that carry a weight above zero.\<close>

definition positiveIndices :: "real list \<Rightarrow> nat list" where
  "positiveIndices weights = filter (\<lambda>i. 0 < weights ! i) [0..<min (length weights) 255]"

definition placed :: "ubyte4 \<Rightarrow> nat list" where
  "placed t = map unat (filter (\<lambda>b. b \<noteq> kUnused) (vec_list t))"

definition pad4 :: "u8 list \<Rightarrow> u8 list" where
  "pad4 xs = xs @ replicate (4 - length xs) kUnused"

text \<open>Lines 111 to 115: the safe set and the four weights it points at.\<close>

definition safeSet :: "ubyte4 \<Rightarrow> ubyte4" where
  "safeSet pidx =
     fold (\<lambda>i safe. if vec_get safe i = kUnused then vec_set safe i 0 else safe) [0, 1, 2, 3] pidx"

definition highest :: "real list \<Rightarrow> ubyte4 \<Rightarrow> float4" where
  "highest weights pidx =
     (let safe = safeSet pidx
      in Vec4 (weights ! unat (vec_get safe 0)) (weights ! unat (vec_get safe 1))
              (weights ! unat (vec_get safe 2)) (weights ! unat (vec_get safe 3)))"

text \<open>Lines 62 and 63: the weights copied into a zero vector.\<close>

definition directWeights :: "real list \<Rightarrow> float4" where
  "directWeights weights =
     fold (\<lambda>i vec. vec_set vec i (weights ! i)) [0..<length weights] (Vec4 0 0 0 0)"

section \<open>The vertex buffer synthesizer (createVertexBuffer)\<close>

definition kMaxBufferCount :: nat where
  "kMaxBufferCount = 16"

text \<open>The locals of \<open>createVertexBuffer\<close> that its loops change.\<close>

record vb_locals =
  vbb :: Builder
  buffers :: "BufferDescriptor option list"
  slot :: nat
  hasUv0 :: bool
  hasUv1 :: bool
  hasVertexColor :: bool
  hasNormals :: bool

definition initial_locals :: vb_locals where
  "initial_locals =
     \<lparr>vbb = Map.empty, buffers = replicate kMaxBufferCount None, slot = 0,
      hasUv0 = False, hasUv1 = False, hasVertexColor = False, hasNormals = False\<rparr>"

text \<open>Modelled from the spec: the builder of the GPU buffer backend, which takes one
  descriptor per attribute (\<open>vbb.attribute\<close> followed by \<open>vbb.normalized\<close>).\<close>

definition declareAttribute ::
  "VertexAttribute \<Rightarrow> nat \<Rightarrow> AttributeType \<Rightarrow> nat \<Rightarrow> nat \<Rightarrow> bool \<Rightarrow> vb_locals \<Rightarrow> vb_locals" where
  "declareAttribute attr sl ty off str nrm st =
     st\<lparr>vbb := (vbb st)(attr \<mapsto>
        \<lparr>bufferIndex = sl, attributeType = ty, byteOffset = off, byteStride = str,
         declNormalized = nrm\<rparr>)\<rparr>"

text \<open>
  \<open>buffers[slot++] = d\<close>: the array has \<open>kMaxBufferCount\<close> entries, and the source never
  compares \<open>slot\<close> with that number. A write at an index past the last entry goes to the
  memory behind the array; \<open>storeAt\<close> extends the list to keep it, and the loop of lines 323
  to 327, which reads the entries below \<open>slot\<close>, finds it there.
\<close>

definition storeAt :: "'a option list \<Rightarrow> nat \<Rightarrow> 'a option \<Rightarrow> 'a option list" where
  "storeAt xs i v =
     (if i < length xs then xs[i := v] else xs @ replicate (i - length xs) None @ [v])"

definition storeBuffer :: "BufferDescriptor \<Rightarrow> vb_locals \<Rightarrow> vb_locals" where
  "storeBuffer d st =
     st\<lparr>buffers := storeAt (buffers st) (slot st) (Some d), slot := slot st + 1\<rparr>"

definition computeVertexCount :: "cgltf_attribute list \<Rightarrow> u32" where
  "computeVertexCount attrs =
     (case List.find (\<lambda>a. adata a \<noteq> None) attrs of
        None \<Rightarrow> 0
      | Some a \<Rightarrow> of_nat (acount (the (adata a))))"

definition createBufferDescriptor :: "cgltf_accessor \<Rightarrow> BufferDescriptor" where
  "createBufferDescriptor accessor = ClonedBuffer (binding accessor)"

definition createDummyBuffer :: "u32 \<Rightarrow> BufferDescriptor" where
  "createDummyBuffer vcount =
     (let size = (4 :: u32) * vcount in DummyBuffer (replicate (unat size) 0xff))"

definition createTangentsBuffer :: "nat option \<Rightarrow> BufferDescriptor" where
  "createTangentsBuffer morphTarget = TangentsBuffer morphTarget"

text \<open>Modelled from the spec: \<open>getVertexAttrType\<close> and \<open>getNumUvSets\<close> (GltfEnums.h,
  FFilamentAsset.h): every semantic other than normal and tangent binds directly, and the
  remap table has no active UV set when all its entries are unused.\<close>

definition getVertexAttrType :: "cgltf_attribute_type \<Rightarrow> VertexAttribute option" where
  "getVertexAttrType t =
     (case t of
        cgltf_attribute_type_position \<Rightarrow> Some POSITION
      | cgltf_attribute_type_texcoord \<Rightarrow> Some UV0
      | cgltf_attribute_type_color \<Rightarrow> Some COLOR
      | cgltf_attribute_type_joints \<Rightarrow> Some BONE_INDICES
      | cgltf_attribute_type_weights \<Rightarrow> Some BONE_WEIGHTS
      | _ \<Rightarrow> None)"

definition uvSetRank :: "UvSet \<Rightarrow> nat" where
  "uvSetRank u = (case u of UNUSED \<Rightarrow> 0 | UvSet_UV0 \<Rightarrow> 1 | UvSet_UV1 \<Rightarrow> 2)"

definition getNumUvSets :: "UvMap \<Rightarrow> nat" where
  "getNumUvSets uv = fold max (map uvSetRank uv) 0"

text \<open>Lines 245 to 249: an attribute bound with its accessor's format and bytes.\<close>

definition bindAccessor ::
  "VertexAttribute option \<Rightarrow> cgltf_accessor option \<Rightarrow> vb_locals \<Rightarrow> fatal + vb_locals" where
  "bindAccessor semantic accessor st =
     (case accessor of
        None \<Rightarrow> Inl NullAccessor
      | Some acc \<Rightarrow>
          (case semantic of
             None \<Rightarrow> Inl UninitializedSemantic
           | Some sem \<Rightarrow>
               Inr (storeBuffer (createBufferDescriptor acc)
                      (declareAttribute sem (slot st) (fatype acc) 0 (stride acc)
                         (normalized acc) st))))"

text \<open>The body of the loop of lines 202 to 250.\<close>

definition baseAttribute :: "UvMap \<Rightarrow> cgltf_attribute \<Rightarrow> vb_locals \<Rightarrow> fatal + vb_locals" where
  "baseAttribute uv attribute st =
     (if atype attribute = cgltf_attribute_type_tangent then Inr st
      else if atype attribute = cgltf_attribute_type_normal then
        (let st' = storeBuffer (createTangentsBuffer None)
                     (declareAttribute TANGENTS (slot st) SHORT4 0 0 True st)
         in Inr (st'\<lparr>hasNormals := True\<rparr>))
      else
        (let st1 = (if atype attribute = cgltf_attribute_type_color
                    then st\<lparr>hasVertexColor := True\<rparr> else st);
             semantic = getVertexAttrType (atype attribute)
         in if atype attribute = cgltf_attribute_type_texcoord then
              (if aindex attribute \<ge> length uv then Inr st1
               else
                 (case uv ! aindex attribute of
                    UvSet_UV0 \<Rightarrow> bindAccessor (Some UV0) (adata attribute) (st1\<lparr>hasUv0 := True\<rparr>)
                  | UvSet_UV1 \<Rightarrow> bindAccessor (Some UV1) (adata attribute) (st1\<lparr>hasUv1 := True\<rparr>)
                  | UNUSED \<Rightarrow>
                      (if \<not> hasUv0 st1 \<and> getNumUvSets uv = 0
                       then bindAccessor (Some UV0) (adata attribute) (st1\<lparr>hasUv0 := True\<rparr>)
                       else Inr st1)))
            else bindAccessor semantic (adata attribute) st1))"

fun baseAttributes :: "UvMap \<Rightarrow> cgltf_attribute list \<Rightarrow> vb_locals \<Rightarrow> fatal + vb_locals" where
  "baseAttributes uv [] st = Inr st"
| "baseAttributes uv (a # as) st =
     (case baseAttribute uv a st of Inl e \<Rightarrow> Inl e | Inr st' \<Rightarrow> baseAttributes uv as st')"

text \<open>Lines 252 to 258.\<close>

definition flatNormals :: "cgltf_primitive \<Rightarrow> vb_locals \<Rightarrow> vb_locals" where
  "flatNormals prim st =
     (if material prim \<noteq> None \<and> \<not> unlit (the (material prim)) \<and> \<not> hasNormals st
      then storeBuffer (createTangentsBuffer None)
             (declareAttribute TANGENTS (slot st) SHORT4 0 0 True st)
      else st)"

text \<open>The body of the inner loop of lines 270 to 290.\<close>

definition morphAttribute ::
  "nat \<Rightarrow> nat \<Rightarrow> cgltf_attribute \<Rightarrow> vb_locals \<Rightarrow> fatal + vb_locals" where
  "morphAttribute targetCount targetIndex attribute st =
     (if atype attribute = cgltf_attribute_type_tangent then Inr st
      else if atype attribute = cgltf_attribute_type_normal then
        Inr (storeBuffer (createTangentsBuffer (Some targetIndex))
               (declareAttribute (MORPH_TANGENTS targetCount) (slot st) SHORT4 0 0 True st))
      else bindAccessor (Some (MORPH_POSITION targetCount)) (adata attribute) st)"

fun morphAttributes ::
  "nat \<Rightarrow> nat \<Rightarrow> cgltf_attribute list \<Rightarrow> vb_locals \<Rightarrow> fatal + vb_locals" where
  "morphAttributes targetCount targetIndex [] st = Inr st"
| "morphAttributes targetCount targetIndex (a # as) st =
     (case morphAttribute targetCount targetIndex a st of
        Inl e \<Rightarrow> Inl e
      | Inr st' \<Rightarrow> morphAttributes targetCount targetIndex as st')"

text \<open>The outer loop of lines 263 to 291.\<close>

function morphTargets ::
  "cgltf_primitive \<Rightarrow> ubyte4 \<Rightarrow> nat \<Rightarrow> vb_locals \<Rightarrow> fatal + vb_locals" where
  "morphTargets prim pidx targetCount st =
     (if targetCount < 4 then
        (let targetIndex = vec_get pidx targetCount
         in if targetIndex = kUnused then Inr st
            else if unat targetIndex \<ge> length (targets prim) then Inl TargetOutOfRange
            else
              (case morphAttributes targetCount (unat targetIndex)
                      (targets prim ! unat targetIndex) st of
                 Inl e \<Rightarrow> Inl e
               | Inr st' \<Rightarrow> morphTargets prim pidx (targetCount + 1) st'))
      else Inr st)"
  by pat_completeness auto
termination
  by (relation "measure (\<lambda>(prim, pidx, targetCount, st). 4 - targetCount)") auto

text \<open>Lines 298 to 316.\<close>

definition fallbackPass :: "u32 \<Rightarrow> vb_locals \<Rightarrow> vb_locals" where
  "fallbackPass vcount st =
     (let needsDummyData = False;
          (needsDummyData, st) =
             (if \<not> hasUv0 st
              then (True, declareAttribute UV0 (slot st) USHORT2 0 0 True st)
              else (needsDummyData, st));
          (needsDummyData, st) =
             (if \<not> hasUv1 st
              then (True, declareAttribute UV1 (slot st) USHORT2 0 0 True st)
              else (needsDummyData, st));
          (needsDummyData, st) =
             (if \<not> hasVertexColor st
              then (True, declareAttribute COLOR (slot st) UBYTE4 0 0 True st)
              else (needsDummyData, st))
      in if needsDummyData then storeBuffer (createDummyBuffer vcount) st else st)"

text \<open>Everything before the fallback pass, and the whole function. The built object
  keeps the builder's descriptors and the payloads of the slots below \<open>bufferCount\<close>.\<close>

definition beforeFallback :: "cgltf_primitive \<Rightarrow> UvMap \<Rightarrow> ubyte4 \<Rightarrow> fatal + vb_locals" where
  "beforeFallback prim uv pidx =
     (case baseAttributes uv (attributes prim) initial_locals of
        Inl e \<Rightarrow> Inl e
      | Inr st1 \<Rightarrow> morphTargets prim pidx 0 (flatNormals prim st1))"

definition createVertexBuffer ::
  "cgltf_primitive \<Rightarrow> UvMap \<Rightarrow> ubyte4 \<Rightarrow> VertexBuffer list \<Rightarrow>
     fatal + (VertexBufferPtr \<times> VertexBuffer list)" where
  "createVertexBuffer prim uv pidx engine =
     (let vcount = computeVertexCount (attributes prim)
      in case beforeFallback prim uv pidx of
           Inl e \<Rightarrow> Inl e
         | Inr st3 \<Rightarrow>
             (let st = fallbackPass vcount st3
              in Inr (length engine,
                      engine @ [\<lparr>vertexCount = vcount, bufferCount = slot st,
                                 declared = vbb st,
                                 bufferAt = take (slot st) (buffers st)\<rparr>])))"

section \<open>The cache (createMorphTableEntry, applyWeights, the destructor)\<close>

text \<open>The loop of \<open>createMorphTableEntry\<close>: \<open>cached\<close> is what \<open>mMeshCache\<close> holds for the
  mesh, looked up (\<open>mMeshCache.at(mesh)[pi]\<close>) once per primitive.\<close>

fun createPrimitives ::
  "cgltf_primitive list \<Rightarrow> AssetPrimitive list option \<Rightarrow> nat \<Rightarrow> ubyte4 \<Rightarrow> VertexBuffer list \<Rightarrow>
     fatal + (MorphValue \<times> VertexBuffer list)" where
  "createPrimitives [] cached primIndex pidx engine = Inr ([], engine)"
| "createPrimitives (prim # prims) cached primIndex pidx engine =
     (case cached of
        None \<Rightarrow> Inl MeshNotCached
      | Some cachedPrims \<Rightarrow>
          (if primIndex \<ge> length cachedPrims then Inl PrimitiveOutOfRange
           else
             (let gltfioPrim = cachedPrims ! primIndex
              in case createVertexBuffer prim (uvmap gltfioPrim) pidx engine of
                   Inl e \<Rightarrow> Inl e
                 | Inr (vb, engine') \<Rightarrow>
                     (case createPrimitives prims cached (primIndex + 1) pidx engine' of
                        Inl e \<Rightarrow> Inl e
                      | Inr (rest, engine'') \<Rightarrow>
                          Inr (\<lparr>vertices = vb, indices = assetIndices gltfioPrim,
                                ptype = gltfType prim\<rparr> # rest, engine'')))))"

definition createMorphTableEntry ::
  "FFilamentAsset \<Rightarrow> Entity \<Rightarrow> ubyte4 \<Rightarrow> VertexBuffer list \<Rightarrow>
     fatal + (MorphValue \<times> VertexBuffer list)" where
  "createMorphTableEntry asset entity pidx engine =
     (case mNodeMap asset entity of
        None \<Rightarrow> Inl NullNode
      | Some node \<Rightarrow>
          (case mesh node of
             None \<Rightarrow> Inl NullMesh
           | Some m \<Rightarrow> createPrimitives (primitives m) (mMeshCache asset m) 0 pidx engine))"

fun table_find :: "(MorphKey \<times> MorphValue) list \<Rightarrow> MorphKey \<Rightarrow> MorphValue option" where
  "table_find [] k = None"
| "table_find ((k', v) # t) k = (if MorphKeyEqualFn k' k then Some v else table_find t k)"

definition table_insert ::
  "(MorphKey \<times> MorphValue) list \<Rightarrow> MorphKey \<Rightarrow> MorphValue \<Rightarrow> (MorphKey \<times> MorphValue) list" where
  "table_insert t k v = (case table_find t k of None \<Rightarrow> t @ [(k, v)] | Some _ \<Rightarrow> t)"

text \<open>Lines 105 to 109.\<close>

definition setGeometry :: "Entity \<Rightarrow> MorphValue \<Rightarrow> RenderableCall list" where
  "setGeometry renderable tableEntry =
     map (\<lambda>primIndex.
            (let prim = tableEntry ! primIndex
             in SetGeometryAt renderable primIndex (ptype prim) (vertices prim) (indices prim)
                  0 (indexCount (indices prim))))
       [0..<length tableEntry]"

definition applyWeights ::
  "FFilamentAsset \<Rightarrow> Entity \<Rightarrow> real list \<Rightarrow> MorphHelper \<Rightarrow> fatal + MorphHelper" where
  "applyWeights asset entity weights s =
     (if length weights \<le> 4
      then Inr (s\<lparr>renderableCalls :=
                   renderableCalls s @ [SetMorphWeights entity (directWeights weights)]\<rparr>)
      else
        (let pidx = findPrimaryIndices weights;
             s1 = s\<lparr>mPartiallySortedWeights := partiallySorted weights\<rparr>;
             key = \<lparr>targetEntity = entity, primaryIndices = pidx\<rparr>
         in case (case table_find (mMorphTable s1) key of
                    Some v \<Rightarrow> Inr (v, s1)
                  | None \<Rightarrow>
                      (case createMorphTableEntry asset entity pidx (built s1) of
                         Inl e \<Rightarrow> Inl e
                       | Inr (v, engine') \<Rightarrow>
                           Inr (v, s1\<lparr>mMorphTable := table_insert (mMorphTable s1) key v,
                                       built := engine'\<rparr>))) of
              Inl e \<Rightarrow> Inl e
            | Inr (tableEntry, s2) \<Rightarrow>
                Inr (s2\<lparr>renderableCalls :=
                          renderableCalls s2 @ setGeometry entity tableEntry @
                          [SetMorphWeights entity (highest weights pidx)]\<rparr>)))"

definition destructor :: "MorphHelper \<Rightarrow> MorphHelper" where
  "destructor s =
     s\<lparr>destroyed := destroyed s @ concat (map (\<lambda>entry. map vertices (snd entry)) (mMorphTable s))\<rparr>"

definition newMorphHelper :: MorphHelper where
  "newMorphHelper =
     \<lparr>mPartiallySortedWeights = [], mMorphTable = [], built = [], destroyed = [],
      renderableCalls = []\<rparr>"

fun applyAll ::
  "FFilamentAsset \<Rightarrow> (Entity \<times> real list) list \<Rightarrow> MorphHelper \<Rightarrow> fatal + MorphHelper" where
  "applyAll asset [] s = Inr s"
| "applyAll asset ((entity, weights) # calls) s =
     (case applyWeights asset entity weights s of
        Inl e \<Rightarrow> Inl e
      | Inr s' \<Rightarrow> applyAll asset calls s')"

section \<open>The slots a primitive needs\<close>

text \<open>
  The number of payloads \<open>createVertexBuffer\<close> stores for a primitive, counted from the
  primitive alone: the base attributes that are bound (a texture coordinate set only when
  the remap table sends it to UV0 or UV1, or promotes it to UV0), the flat normals of a
  lit primitive without normals, the attributes other than tangents of the morph targets
  the tuple names up to its first sentinel, and the dummy.
\<close>

definition bindsBase :: "UvMap \<Rightarrow> bool \<Rightarrow> cgltf_attribute \<Rightarrow> bool" where
  "bindsBase uv u0 a =
     (atype a \<noteq> cgltf_attribute_type_tangent \<and>
      (atype a = cgltf_attribute_type_texcoord \<longrightarrow>
         aindex a < length uv \<and>
         (uv ! aindex a \<noteq> UNUSED \<or> (\<not> u0 \<and> getNumUvSets uv = 0))))"

definition bindsUv0 :: "UvMap \<Rightarrow> bool \<Rightarrow> cgltf_attribute \<Rightarrow> bool" where
  "bindsUv0 uv u0 a =
     (atype a = cgltf_attribute_type_texcoord \<and> aindex a < length uv \<and>
      (uv ! aindex a = UvSet_UV0 \<or> (uv ! aindex a = UNUSED \<and> \<not> u0 \<and> getNumUvSets uv = 0)))"

definition bindsUv1 :: "UvMap \<Rightarrow> cgltf_attribute \<Rightarrow> bool" where
  "bindsUv1 uv a =
     (atype a = cgltf_attribute_type_texcoord \<and> aindex a < length uv \<and>
      uv ! aindex a = UvSet_UV1)"

fun baseSlots :: "UvMap \<Rightarrow> bool \<Rightarrow> cgltf_attribute list \<Rightarrow> nat" where
  "baseSlots uv u0 [] = 0"
| "baseSlots uv u0 (a # as) =
     (if bindsBase uv u0 a then 1 else 0) + baseSlots uv (u0 \<or> bindsUv0 uv u0 a) as"

fun baseUv0 :: "UvMap \<Rightarrow> bool \<Rightarrow> cgltf_attribute list \<Rightarrow> bool" where
  "baseUv0 uv u0 [] = u0"
| "baseUv0 uv u0 (a # as) = baseUv0 uv (u0 \<or> bindsUv0 uv u0 a) as"

definition targetSlots :: "cgltf_attribute list \<Rightarrow> nat" where
  "targetSlots as = length (filter (\<lambda>a. atype a \<noteq> cgltf_attribute_type_tangent) as)"

definition morphSlots :: "cgltf_primitive \<Rightarrow> u8 list \<Rightarrow> nat" where
  "morphSlots prim bs =
     sum_list (map (\<lambda>b. targetSlots (targets prim ! unat b)) (takeWhile (\<lambda>b. b \<noteq> kUnused) bs))"

definition needsDummy :: "cgltf_primitive \<Rightarrow> UvMap \<Rightarrow> bool" where
  "needsDummy prim uv =
     (\<not> (baseUv0 uv False (attributes prim) \<and>
         list_ex (bindsUv1 uv) (attributes prim) \<and>
         list_ex (\<lambda>a. atype a = cgltf_attribute_type_color) (attributes prim)))"

definition needsFlatNormals :: "cgltf_primitive \<Rightarrow> bool" where
  "needsFlatNormals prim =
     (material prim \<noteq> None \<and> \<not> unlit (the (material prim)) \<and>
      \<not> list_ex (\<lambda>a. atype a = cgltf_attribute_type_normal) (attributes prim))"

definition slotsNeeded :: "cgltf_primitive \<Rightarrow> UvMap \<Rightarrow> ubyte4 \<Rightarrow> nat" where
  "slotsNeeded prim uv pidx =
     baseSlots uv False (attributes prim) + (if needsFlatNormals prim then 1 else 0) +
     morphSlots prim (vec_list pidx) + (if needsDummy prim uv then 1 else 0)"

section \<open>Invariants of the synthesizer and of the cache\<close>

text \<open>
  What holds of the locals of \<open>createVertexBuffer\<close> between its steps: the payloads
  fill the array, or reach up to the slot counter once that has passed the array's end,
  every declared attribute points below the slot counter, no dummy has been stored, and
  the three flags say which of UV0, UV1 and the colour have been declared.
  \<open>tableHandles\<close> lists the vertex buffers of the table's entries, in table order.
\<close>

definition tableHandles :: "MorphHelper \<Rightarrow> VertexBufferPtr list" where
  "tableHandles s = concat (map (\<lambda>entry. map vertices (snd entry)) (mMorphTable s))"

definition isDummy :: "BufferDescriptor option \<Rightarrow> bool" where
  "isDummy d = (case d of Some (DummyBuffer _) \<Rightarrow> True | _ \<Rightarrow> False)"

definition flagsOf :: "vb_locals \<Rightarrow> nat \<times> bool \<times> bool \<times> bool \<times> bool" where
  "flagsOf st = (slot st, hasUv0 st, hasUv1 st, hasVertexColor st, hasNormals st)"

definition slotsInv :: "vb_locals \<Rightarrow> bool" where
  "slotsInv st =
     (length (buffers st) = max kMaxBufferCount (slot st) \<and>
      (\<forall>a d. vbb st a = Some d \<longrightarrow> bufferIndex d < slot st) \<and>
      (\<forall>d \<in> set (buffers st). \<not> isDummy d))"

definition flagsInv :: "vb_locals \<Rightarrow> bool" where
  "flagsInv st =
     ((hasUv0 st \<longleftrightarrow> UV0 \<in> dom (vbb st)) \<and> (hasUv1 st \<longleftrightarrow> UV1 \<in> dom (vbb st)) \<and>
      (hasVertexColor st \<longleftrightarrow> COLOR \<in> dom (vbb st)))"

text \<open>
  A primitive and a tuple that give the synthesizer no null or dangling read: every base
  attribute has an accessor and a type the helper knows, every attribute of a morph
  target has an accessor, and the tuple names existing targets up to its first sentinel.
\<close>

definition wellFormed :: "cgltf_primitive \<Rightarrow> ubyte4 \<Rightarrow> bool" where
  "wellFormed prim pidx =
     (list_all (\<lambda>a. adata a \<noteq> None \<and> atype a \<noteq> cgltf_attribute_type_invalid) (attributes prim) \<and>
      list_all (list_all (\<lambda>a. adata a \<noteq> None)) (targets prim) \<and>
      list_all (\<lambda>b. unat b < length (targets prim))
        (takeWhile (\<lambda>b. b \<noteq> kUnused) (vec_list pidx)))"

definition dummyDecl :: "AttributeType \<Rightarrow> nat \<Rightarrow> AttributeDecl" where
  "dummyDecl ty sl =
     \<lparr>bufferIndex = sl, attributeType = ty, byteOffset = 0, byteStride = 0,
      declNormalized = True\<rparr>"

section \<open>Example data\<close>

text \<open>
  A mesh of one primitive with one vertex: a position, a normal and one texture
  coordinate set mapped to UV0, no material, and five morph targets of one position
  delta each. \<open>overflowPrimitive\<close> has nine base attributes (two sets of joints and
  weights, both UV sets and a colour) and five morph targets of a position and a normal
  delta each: with four targets selected, seventeen payloads.
\<close>

definition exampleAccessor :: cgltf_accessor where
  "exampleAccessor =
     \<lparr>acount = 1, stride = 12, normalized = False, fatype = FLOAT3,
      binding = [0, 0, 128, 63, 0, 0, 0, 0, 0, 0, 0, 0]\<rparr>"

definition exampleTarget :: "cgltf_attribute list" where
  "exampleTarget =
     [\<lparr>atype = cgltf_attribute_type_position, aindex = 0, adata = Some exampleAccessor\<rparr>]"

definition examplePrimitive :: cgltf_primitive where
  "examplePrimitive =
     \<lparr>gltfType = TRIANGLES,
      attributes =
        [\<lparr>atype = cgltf_attribute_type_position, aindex = 0, adata = Some exampleAccessor\<rparr>,
         \<lparr>atype = cgltf_attribute_type_normal, aindex = 0, adata = Some exampleAccessor\<rparr>,
         \<lparr>atype = cgltf_attribute_type_texcoord, aindex = 0, adata = Some exampleAccessor\<rparr>],
      material = None,
      targets = [exampleTarget, exampleTarget, exampleTarget, exampleTarget, exampleTarget]\<rparr>"

definition exampleUvMap :: UvMap where
  "exampleUvMap = [UvSet_UV0, UNUSED, UNUSED, UNUSED, UNUSED, UNUSED, UNUSED, UNUSED]"

definition exampleMesh :: cgltf_mesh where
  "exampleMesh = \<lparr>primitives = [examplePrimitive]\<rparr>"

definition exampleAsset :: FFilamentAsset where
  "exampleAsset =
     \<lparr>mNodeMap = [7 \<mapsto> \<lparr>mesh = Some exampleMesh\<rparr>],
      mMeshCache =
        [exampleMesh \<mapsto> [\<lparr>uvmap = exampleUvMap, assetIndices = \<lparr>ibName = 0, indexCount = 3\<rparr>\<rparr>]]\<rparr>"

definition exampleDelta :: cgltf_attribute where
  "exampleDelta =
     \<lparr>atype = cgltf_attribute_type_position, aindex = 0, adata = Some exampleAccessor\<rparr>"

definition exampleNormalDelta :: cgltf_attribute where
  "exampleNormalDelta =
     \<lparr>atype = cgltf_attribute_type_normal, aindex = 0, adata = Some exampleAccessor\<rparr>"

definition overflowUvMap :: UvMap where
  "overflowUvMap = [UvSet_UV0, UvSet_UV1, UNUSED, UNUSED, UNUSED, UNUSED, UNUSED, UNUSED]"

definition overflowPrimitive :: cgltf_primitive where
  "overflowPrimitive =
     \<lparr>gltfType = TRIANGLES,
      attributes =
        [\<lparr>atype = cgltf_attribute_type_position, aindex = 0, adata = Some exampleAccessor\<rparr>,
         \<lparr>atype = cgltf_attribute_type_normal, aindex = 0, adata = Some exampleAccessor\<rparr>,
         \<lparr>atype = cgltf_attribute_type_texcoord, aindex = 0, adata = Some exampleAccessor\<rparr>,
         \<lparr>atype = cgltf_attribute_type_texcoord, aindex = 1, adata = Some exampleAccessor\<rparr>,
         \<lparr>atype = cgltf_attribute_type_color, aindex = 0, adata = Some exampleAccessor\<rparr>,
         \<lparr>atype = cgltf_attribute_type_joints, aindex = 0, adata = Some exampleAccessor\<rparr>,
         \<lparr>atype = cgltf_attribute_type_weights, aindex = 0, adata = Some exampleAccessor\<rparr>,
         \<lparr>atype = cgltf_attribute_type_joints, aindex = 1, adata = Some exampleAccessor\<rparr>,
         \<lparr>atype = cgltf_attribute_type_weights, aindex = 1, adata = Some exampleAccessor\<rparr>],
      material = None,
      targets =
        [[exampleDelta, exampleNormalDelta], [exampleDelta, exampleNormalDelta],
         [exampleDelta, exampleNormalDelta], [exampleDelta, exampleNormalDelta],
         [exampleDelta, exampleNormalDelta]]\<rparr>"

definition overflowMesh :: cgltf_mesh where
  "overflowMesh = \<lparr>primitives = [overflowPrimitive]\<rparr>"

definition overflowAsset :: FFilamentAsset where
  "overflowAsset =
     \<lparr>mNodeMap = [9 \<mapsto> \<lparr>mesh = Some overflowMesh\<rparr>],
      mMeshCache =
        [overflowMesh \<mapsto> [\<lparr>uvmap = overflowUvMap, assetIndices = \<lparr>ibName = 1, indexCount = 3\<rparr>\<rparr>]]\<rparr>"

section \<open>Vectors as lists\<close>

lemma vec_list_vec_set: "i < 4 \<Longrightarrow> vec_list (vec_set v i a) = (vec_list v)[i := a]"
proof -
  assume "i < 4"
  then consider "i = 0" | "i = 1" | "i = 2" | "i = 3" by linarith
  then show ?thesis
    by cases (simp_all add: vec_list_def vec_set_def)
qed

lemma vec_list_inject: "vec_list u = vec_list v \<Longrightarrow> u = v"
  by (cases u; cases v) (simp add: vec_list_def)

lemma vec_get_nth: "i < 4 \<Longrightarrow> vec_get v i = vec_list v ! i"
proof -
  assume "i < 4"
  then consider "i = 0" | "i = 1" | "i = 2" | "i = 3" by linarith
  then show ?thesis
    by cases (simp_all add: vec_list_def vec_get_def)
qed

lemma length_vec_list: "length (vec_list v) = 4"
  by (simp add: vec_list_def)

section \<open>The partial sort\<close>

lemma length_nth_element: "length (nth_element xs) = length xs"
  by (simp add: nth_element_def)

lemma set_nth_element: "set (nth_element xs) = set xs"
  by (simp add: nth_element_def)

lemma nth_element_descending:
  assumes "i \<le> j" "j < length xs"
  shows "nth_element xs ! j \<le> nth_element xs ! i"
proof -
  have "sorted_wrt (\<lambda>x y. y \<le> x) (nth_element xs)"
    unfolding nth_element_def by (simp add: sorted_wrt_rev)
  then show ?thesis
    using assms by (cases "i = j") (auto simp: sorted_wrt_iff_nth_less length_nth_element)
qed

text \<open>The descending sort is one of the outcomes \<open>std::nth_element\<close> may leave.\<close>

lemma nth_element_meets_post: "nth_element_post xs (nth_element xs)"
proof -
  let ?s = "nth_element xs"
  have "sorted_wrt (\<lambda>x y. y \<le> x) ?s"
    unfolding nth_element_def by (simp add: sorted_wrt_rev)
  then have "sorted_wrt (\<lambda>x y. y \<le> x) (take 4 ?s @ drop 4 ?s)"
    by (simp only: append_take_drop_id)
  then have "\<forall>a \<in> set (take 4 ?s). \<forall>b \<in> set (drop 4 ?s). b \<le> a"
    unfolding sorted_wrt_append by blast
  moreover have "mset ?s = mset xs"
    by (simp add: nth_element_def)
  ultimately show ?thesis
    unfolding nth_element_post_def list_all_iff by blast
qed

lemma partiallySorted_long:
  "4 \<le> length weights \<Longrightarrow>
     partiallySorted weights = nth_element (take (min (length weights) 255) weights)"
  by (simp add: partiallySorted_def Let_def length_nth_element)

lemma is_primary_take4:
  assumes "4 \<le> length s"
  shows "is_primary s w \<longleftrightarrow> 0 < w \<and> w \<in> set (take 4 s)"
proof -
  have "take 4 s = [s ! 0, s ! 1, s ! 2, s ! 3]"
    using assms by (auto simp: list_eq_iff_nth_eq nth_Cons' numeral_eq_Suc less_Suc_eq)
  then show ?thesis by (auto simp: is_primary_def)
qed

text \<open>Whatever permutation \<open>std::nth_element\<close> leaves, its first four entries are the
  same values, so the scan accepts the same weights.\<close>

lemma top4_any_nth_element:
  assumes post: "nth_element_post xs ys" and len: "4 \<le> length xs"
  shows "set (take 4 ys) = set (take 4 (nth_element xs))"
proof -
  let ?A = "take 4 ys" and ?B = "drop 4 ys"
  have leny: "length ys = length xs"
    using post by (metis nth_element_post_def size_mset)
  have ord: "\<forall>b \<in> set ?B. \<forall>a \<in> set ?A. b \<le> a"
    using post by (auto simp: nth_element_post_def list_all_iff)
  have "sorted (sort ?B @ sort ?A)"
    using ord by (simp add: sorted_append)
  moreover have "mset (sort ?B @ sort ?A) = mset xs"
  proof -
    have "mset (sort ?B @ sort ?A) = mset ?B + mset ?A" by simp
    also have "\<dots> = mset ?A + mset ?B" by (rule add.commute)
    also have "\<dots> = mset (?A @ ?B)" by (rule mset_append[symmetric])
    also have "\<dots> = mset ys" by (simp only: append_take_drop_id)
    also have "\<dots> = mset xs" using post by (simp only: nth_element_post_def)
    finally show ?thesis .
  qed
  ultimately have "sort xs = sort ?B @ sort ?A"
    by (metis properties_for_sort)
  then have "nth_element xs = rev (sort ?A) @ rev (sort ?B)"
    by (simp add: nth_element_def)
  moreover have "length (rev (sort ?A)) = 4"
    using len leny by simp
  ultimately have "take 4 (nth_element xs) = rev (sort ?A)"
    by simp
  then show ?thesis by simp
qed

lemma is_primary_any_nth_element:
  assumes "nth_element_post xs ys" "4 \<le> length xs"
  shows "is_primary ys w = is_primary (nth_element xs) w"
proof -
  have "length ys = length xs"
    using assms(1) by (metis nth_element_post_def size_mset)
  then show ?thesis
    using assms top4_any_nth_element[OF assms]
    by (simp add: is_primary_take4 length_nth_element)
qed

lemma primaryLoop_any_nth_element:
  assumes "nth_element_post xs ys" "4 \<le> length xs"
  shows "primaryLoop weights ys cnt pc index primary t =
         primaryLoop weights (nth_element xs) cnt pc index primary t"
  using assms
proof (induction weights ys cnt pc index primary t rule: primaryLoop.induct)
  case (1 weights ys cnt pc index primary t)
  note l = primaryLoop.simps[of weights ys cnt pc index primary t]
  note r = primaryLoop.simps[of weights "nth_element xs" cnt pc index primary t]
  have q: "is_primary ys (weights ! index) = is_primary (nth_element xs) (weights ! index)"
    by (rule is_primary_any_nth_element[OF "1.prems"])
  show ?case
  proof (cases "index < cnt \<and> primary < pc")
    case False
    then show ?thesis by (simp only: l r if_False)
  next
    case True
    show ?thesis
    proof (cases "is_primary ys (weights ! index)")
      case p: True
      have "primaryLoop weights ys cnt pc (index + 1) (primary + 1)
              (vec_set t primary (of_nat index)) =
            primaryLoop weights (nth_element xs) cnt pc (index + 1) (primary + 1)
              (vec_set t primary (of_nat index))"
        by (rule "1.IH"(1)[OF True p "1.prems"])
      then show ?thesis
        using True p q by (simp only: l r if_True)
    next
      case p: False
      have "primaryLoop weights ys cnt pc (index + 1) primary t =
            primaryLoop weights (nth_element xs) cnt pc (index + 1) primary t"
        by (rule "1.IH"(2)[OF True p "1.prems"])
      then show ?thesis
        using True p q by (simp only: l r if_True if_False)
    qed
  qed
qed

text \<open>A weight of the array that is not among the first four of the partial sort is
  below each of them.\<close>

lemma below_top4:
  assumes "4 \<le> length xs" "x \<in> set xs" "x \<notin> set (take 4 (nth_element xs))"
    and "y \<in> set (take 4 (nth_element xs))"
  shows "x < y"
proof -
  let ?s = "nth_element xs"
  obtain m where m: "m < length xs" "x = ?s ! m"
    using assms(2) by (metis in_set_conv_nth length_nth_element set_nth_element)
  obtain i where i: "i < 4" "y = ?s ! i"
    using assms(4) by (auto simp: in_set_conv_nth)
  have "\<not> m < 4"
  proof
    assume "m < 4"
    then have "?s ! m \<in> set (take 4 ?s)"
      using m(1) by (auto simp: in_set_conv_nth length_nth_element intro!: exI[of _ m])
    then show False using assms(3) m(2) by simp
  qed
  then have "x \<le> y"
    using nth_element_descending[of i m xs] i m by simp
  moreover have "x \<noteq> y" using assms(3,4) by auto
  ultimately show ?thesis by simp
qed

section \<open>The scan for the primary indices\<close>

lemma primaryLoop_list:
  assumes "primary \<le> pc" "pc \<le> 4" "length sel = primary"
    and "vec_list p = sel @ replicate (4 - primary) kUnused"
  shows "vec_list (primaryLoop weights srt cnt pc index primary p) =
           pad4 (take pc (sel @ map of_nat (filter (\<lambda>i. is_primary srt (weights ! i)) [index..<cnt])))"
  using assms
proof (induction weights srt cnt pc index primary p arbitrary: sel rule: primaryLoop.induct)
  case (1 weights srt cnt pc index primary p)
  show ?case
  proof (cases "index < cnt \<and> primary < pc")
    case False
    then have e1: "take pc (sel @ map of_nat (filter (\<lambda>i. is_primary srt (weights ! i)) [index..<cnt])) = sel"
      using "1.prems" by auto
    have e2: "primaryLoop weights srt cnt pc index primary p = p"
      using False by (subst primaryLoop.simps) auto
    show ?thesis
      unfolding e1 e2 using "1.prems" by (simp add: pad4_def)
  next
    case True
    then have lt: "index < cnt" "primary < pc" by auto
    have upt: "[index..<cnt] = index # [index + 1..<cnt]"
      using lt by (simp add: upt_conv_Cons)
    show ?thesis
    proof (cases "is_primary srt (weights ! index)")
      case q: True
      let ?p' = "vec_set p primary (of_nat index)"
      let ?sel' = "sel @ [of_nat index]"
      have p4: "primary < 4" using lt "1.prems" by simp
      have "vec_list ?p' = (sel @ replicate (4 - primary) kUnused)[primary := of_nat index]"
        using p4 "1.prems" by (simp add: vec_list_vec_set)
      also have "\<dots> = ?sel' @ replicate (4 - (primary + 1)) kUnused"
      proof -
        have "replicate (4 - primary) kUnused = kUnused # replicate (4 - (primary + 1)) kUnused"
          using p4 by (cases "4 - primary") auto
        then show ?thesis using "1.prems" by (simp add: list_update_append)
      qed
      finally have vl: "vec_list ?p' = ?sel' @ replicate (4 - (primary + 1)) kUnused" .
      have "vec_list (primaryLoop weights srt cnt pc (index + 1) (primary + 1) ?p') =
              pad4 (take pc (?sel' @ map of_nat (filter (\<lambda>i. is_primary srt (weights ! i)) [index + 1..<cnt])))"
        using "1.IH"(1)[OF True q, of ?sel'] lt "1.prems" vl by simp
      moreover have "primaryLoop weights srt cnt pc index primary p =
              primaryLoop weights srt cnt pc (index + 1) (primary + 1) ?p'"
        using True q by (subst primaryLoop.simps) simp
      ultimately show ?thesis using q upt by simp
    next
      case q: False
      have "vec_list (primaryLoop weights srt cnt pc (index + 1) primary p) =
              pad4 (take pc (sel @ map of_nat (filter (\<lambda>i. is_primary srt (weights ! i)) [index + 1..<cnt])))"
        using "1.IH"(2)[OF True q, of sel] "1.prems" by simp
      moreover have "primaryLoop weights srt cnt pc index primary p =
              primaryLoop weights srt cnt pc (index + 1) primary p"
        using True q by (subst primaryLoop.simps) simp
      ultimately show ?thesis using q upt by simp
    qed
  qed
qed

lemma findPrimaryIndices_list:
  assumes "4 < length weights"
  shows "vec_list (findPrimaryIndices weights) = pad4 (map of_nat (take 4 (qualifying weights)))"
proof -
  let ?cnt = "min (length weights) 255"
  let ?srt = "partiallySorted weights"
  have init: "vec_list (Vec4 kUnused kUnused kUnused kUnused) = [] @ replicate (4 - 0) kUnused"
    by (simp add: vec_list_def numeral_eq_Suc)
  have pc: "min 4 ?cnt = 4" using assms by simp
  have "vec_list (primaryLoop weights ?srt ?cnt 4 0 0 (Vec4 kUnused kUnused kUnused kUnused)) =
          pad4 (take 4 ([] @ map of_nat (filter (\<lambda>i. is_primary ?srt (weights ! i)) [0..<?cnt])))"
    by (rule primaryLoop_list[OF _ _ _ init]) simp_all
  then show ?thesis
    unfolding findPrimaryIndices_def qualifying_def Let_def pc by (simp only: append_Nil take_map)
qed

lemma qualifying_bound: "i \<in> set (qualifying weights) \<Longrightarrow> i < min (length weights) 255"
  by (auto simp: qualifying_def)

lemma qualifying_sorted: "sorted_wrt (<) (qualifying weights)"
  unfolding qualifying_def by (rule sorted_wrt_filter) (simp add: sorted_wrt_upt)

lemma index_byte: "i < 255 \<Longrightarrow> unat (of_nat i :: u8) = i \<and> (of_nat i :: u8) \<noteq> kUnused"
proof -
  assume lt: "i < 255"
  then have u: "unat (of_nat i :: u8) = i"
    by (simp add: unat_of_nat)
  moreover have "(of_nat i :: u8) \<noteq> kUnused"
  proof
    assume "(of_nat i :: u8) = kUnused"
    then have "unat (of_nat i :: u8) = 255" by (simp add: kUnused_def)
    then show False using u lt by simp
  qed
  ultimately show ?thesis by simp
qed

lemma placed_findPrimaryIndices:
  assumes "4 < length weights"
  shows "placed (findPrimaryIndices weights) = take 4 (qualifying weights)"
proof -
  let ?xs = "take 4 (qualifying weights)"
  have b: "\<forall>i \<in> set ?xs. i < 255"
    using qualifying_bound by (fastforce dest: in_set_takeD)
  have "filter (\<lambda>b. b \<noteq> kUnused) (pad4 (map of_nat ?xs)) = (map of_nat ?xs :: u8 list)"
    using b by (auto simp: pad4_def filter_id_conv index_byte)
  moreover have "map unat (map of_nat ?xs :: u8 list) = ?xs"
    using b by (simp add: map_idI index_byte)
  ultimately show ?thesis
    by (simp only: placed_def findPrimaryIndices_list[OF assms])
qed

lemma findPrimaryIndices_entry:
  assumes "4 < length weights" "i < 4"
  shows "vec_get (findPrimaryIndices weights) i =
           (if i < min 4 (length (qualifying weights)) then of_nat (qualifying weights ! i)
            else kUnused)"
proof -
  let ?xs = "take 4 (qualifying weights)"
  have "vec_get (findPrimaryIndices weights) i = pad4 (map of_nat ?xs) ! i"
    using assms by (simp add: vec_get_nth findPrimaryIndices_list)
  also have "\<dots> = (if i < length ?xs then of_nat (?xs ! i) else kUnused)"
    using assms(2) by (auto simp: pad4_def nth_append)
  finally show ?thesis by (auto simp: min_def)
qed

lemma findPrimaryIndices_sentinel:
  assumes "4 < length weights" "i < 4"
  shows "vec_get (findPrimaryIndices weights) i \<noteq> kUnused \<longleftrightarrow>
           i < min 4 (length (qualifying weights))"
proof (cases "i < min 4 (length (qualifying weights))")
  case True
  then have "qualifying weights ! i \<in> set (qualifying weights)" by simp
  then have "qualifying weights ! i < 255"
    using qualifying_bound by fastforce
  moreover have "vec_get (findPrimaryIndices weights) i = of_nat (qualifying weights ! i)"
    using True by (simp only: findPrimaryIndices_entry[OF assms] if_True)
  ultimately show ?thesis
    using True index_byte by simp
next
  case False
  then have "vec_get (findPrimaryIndices weights) i = kUnused"
    by (simp only: findPrimaryIndices_entry[OF assms] if_False)
  then show ?thesis using False by simp
qed

lemma qualifying_weight:
  assumes "4 < length weights" "i \<in> set (qualifying weights)"
  shows "0 < weights ! i \<and>
         weights ! i \<in> set (take 4 (nth_element (take (min (length weights) 255) weights)))"
proof -
  have "4 \<le> length (partiallySorted weights)"
    using assms(1) by (simp add: partiallySorted_long length_nth_element)
  moreover have "is_primary (partiallySorted weights) (weights ! i)"
    using assms(2) by (simp add: qualifying_def)
  ultimately show ?thesis
    using assms(1) by (simp add: is_primary_take4 partiallySorted_long)
qed

lemma not_qualifying_below:
  assumes len: "4 < length weights" and i: "i \<in> set (qualifying weights)"
    and j: "j < min (length weights) 255" "j \<notin> set (qualifying weights)"
  shows "weights ! j < weights ! i"
proof -
  let ?n = "min (length weights) 255"
  let ?xs = "take ?n weights"
  have wi: "0 < weights ! i" "weights ! i \<in> set (take 4 (nth_element ?xs))"
    using qualifying_weight[OF len i] by simp_all
  have len4: "4 \<le> length ?xs" using len by simp
  have ps: "4 \<le> length (partiallySorted weights)"
    using len by (simp add: partiallySorted_long length_nth_element)
  have "\<not> is_primary (partiallySorted weights) (weights ! j)"
    using j by (simp add: qualifying_def)
  then consider "weights ! j \<le> 0" | "weights ! j \<notin> set (take 4 (nth_element ?xs))"
    using len ps by (auto simp: is_primary_take4 partiallySorted_long)
  then show ?thesis
  proof cases
    case 1
    then show ?thesis using wi(1) by simp
  next
    case 2
    have "weights ! j \<in> set ?xs"
      using j(1) by (auto simp: in_set_conv_nth intro!: exI[of _ j])
    then show ?thesis
      using below_top4[OF len4 _ 2 wi(2)] by simp
  qed
qed

lemma length_filter_nth:
  "length (filter (\<lambda>i. P (xs ! i)) [0..<length xs]) = length (filter P xs)"
proof -
  have "filter P xs = filter P (map (nth xs) [0..<length xs])"
    by (simp only: map_nth)
  also have "\<dots> = map (nth xs) (filter (P \<circ> nth xs) [0..<length xs])"
    by (rule filter_map)
  finally show ?thesis by (simp add: comp_def)
qed

lemma length_filter_mono:
  assumes "\<And>x. x \<in> set xs \<Longrightarrow> P x \<Longrightarrow> Q x"
  shows "length (filter P xs) \<le> length (filter Q xs)"
proof -
  have "filter P xs = filter P (filter Q xs)"
    using assms by (auto intro: filter_cong)
  then show ?thesis
    by (metis length_filter_le)
qed

lemma top4_multiplicity:
  assumes "4 \<le> length xs"
  shows "4 \<le> length (filter (\<lambda>x. x \<in> set (take 4 (nth_element xs))) xs)"
proof -
  let ?s = "nth_element xs"
  let ?P = "\<lambda>x. x \<in> set (take 4 ?s)"
  have "mset (filter ?P xs) = mset (filter ?P ?s)"
    by (simp add: nth_element_def)
  then have "length (filter ?P xs) = length (filter ?P ?s)"
    by (metis size_mset)
  also have "\<dots> = length (filter ?P (take 4 ?s)) + length (filter ?P (drop 4 ?s))"
    by (metis append_take_drop_id filter_append length_append)
  also have "filter ?P (take 4 ?s) = take 4 ?s"
    by simp
  finally show ?thesis
    using assms by (simp add: length_nth_element)
qed

lemma qualifying_take4:
  assumes "4 < length weights"
  shows "qualifying weights =
           filter (\<lambda>i. 0 < weights ! i \<and>
                       weights ! i \<in> set (take 4 (nth_element (take (min (length weights) 255) weights))))
             [0..<min (length weights) 255]"
proof -
  have "4 \<le> length (partiallySorted weights)"
    using assms by (simp add: partiallySorted_long length_nth_element)
  then show ?thesis
    using assms by (simp add: qualifying_def is_primary_take4 partiallySorted_long)
qed

lemma min4_qualifying:
  assumes len: "4 < length weights"
  shows "min 4 (length (qualifying weights)) = min 4 (length (positiveIndices weights))"
proof -
  let ?n = "min (length weights) 255"
  let ?xs = "take ?n weights"
  let ?V = "set (take 4 (nth_element ?xs))"
  have len4: "4 \<le> length ?xs" and lxs: "length ?xs = ?n" using len by simp_all
  note q = qualifying_take4[OF len]
  have le: "length (qualifying weights) \<le> length (positiveIndices weights)"
    unfolding q positiveIndices_def by (rule length_filter_mono) simp
  show ?thesis
  proof (cases "\<forall>v \<in> ?V. 0 < v")
    case True
    have "qualifying weights = filter (\<lambda>i. ?xs ! i \<in> ?V) [0..<length ?xs]"
      unfolding q lxs using True by (intro filter_cong) auto
    then have "length (qualifying weights) = length (filter (\<lambda>x. x \<in> ?V) ?xs)"
      using length_filter_nth[of "\<lambda>x. x \<in> ?V" ?xs] by simp
    then have "4 \<le> length (qualifying weights)"
      using top4_multiplicity[OF len4] by simp
    then show ?thesis using le by simp
  next
    case False
    then obtain v where v: "v \<in> ?V" "v \<le> 0" by force
    have "weights ! j \<in> ?V" if j: "j < ?n" "0 < weights ! j" for j
    proof (rule ccontr)
      assume n: "weights ! j \<notin> ?V"
      have "weights ! j \<in> set ?xs"
        using j(1) by (auto simp: in_set_conv_nth intro!: exI[of _ j])
      then have "weights ! j < v"
        using below_top4[OF len4 _ n v(1)] by simp
      then show False using v(2) j(2) by simp
    qed
    then have "qualifying weights = positiveIndices weights"
      unfolding q positiveIndices_def by (intro filter_cong) auto
    then show ?thesis by simp
  qed
qed

text \<open>
  Claim C1, as amended. For a weight array with more than four entries, the number of
  entries of the tuple that are not the sentinel is \<open>min 4 p\<close>, where \<open>p\<close> is the number of
  indices below the clamped count whose weight is above zero, and they stand at the front;
  every index placed is below the clamped count and its weight is above zero and equal to
  one of the four largest weights; and when at most four indices carry such a weight, the
  weight of every index placed exceeds the weight of every index that is not placed.
\<close>

theorem findPrimaryIndices_selection:
  assumes "4 < length weights"
  shows "length (placed (findPrimaryIndices weights)) = min 4 (length (positiveIndices weights)) \<and>
         (\<forall>i < 4. (vec_get (findPrimaryIndices weights) i \<noteq> kUnused) =
                   (i < length (placed (findPrimaryIndices weights)))) \<and>
         (\<forall>i \<in> set (placed (findPrimaryIndices weights)).
             i < min (length weights) 255 \<and> 0 < weights ! i \<and>
             weights ! i \<in> set (take 4 (partiallySorted weights))) \<and>
         (length (qualifying weights) \<le> 4 \<longrightarrow>
            (\<forall>i \<in> set (placed (findPrimaryIndices weights)). \<forall>j < min (length weights) 255.
               j \<notin> set (placed (findPrimaryIndices weights)) \<longrightarrow> weights ! j < weights ! i))"
proof -
  let ?t = "findPrimaryIndices weights" and ?q = "qualifying weights"
  have p: "placed ?t = take 4 ?q" by (rule placed_findPrimaryIndices[OF assms])
  have sub: "set (placed ?t) \<subseteq> set ?q" unfolding p by (rule set_take_subset)
  have n: "length (placed ?t) = min 4 (length ?q)" unfolding p by simp
  have c1: "length (placed ?t) = min 4 (length (positiveIndices weights))"
    unfolding n by (rule min4_qualifying[OF assms])
  have c2: "\<forall>i < 4. (vec_get ?t i \<noteq> kUnused) = (i < length (placed ?t))"
    unfolding n using findPrimaryIndices_sentinel[OF assms] by blast
  have c3: "\<forall>i \<in> set (placed ?t). i < min (length weights) 255 \<and> 0 < weights ! i \<and>
              weights ! i \<in> set (take 4 (partiallySorted weights))"
    using qualifying_weight[OF assms] qualifying_bound[of _ weights] sub assms
    by (auto simp: partiallySorted_long)
  have c4: "length ?q \<le> 4 \<longrightarrow>
            (\<forall>i \<in> set (placed ?t). \<forall>j < min (length weights) 255.
               j \<notin> set (placed ?t) \<longrightarrow> weights ! j < weights ! i)"
  proof
    assume "length ?q \<le> 4"
    then have "placed ?t = ?q" unfolding p by simp
    then show "\<forall>i \<in> set (placed ?t). \<forall>j < min (length weights) 255.
               j \<notin> set (placed ?t) \<longrightarrow> weights ! j < weights ! i"
      using not_qualifying_below[OF assms] by simp
  qed
  show ?thesis using c1 c2 c3 c4 by blast
qed

lemma partiallySorted_example:
  "partiallySorted [0.1, 0.9, 0.05, 0.8, 0.3] = [0.9, 0.8, 0.3, 0.1, 0.05]"
  by (simp add: partiallySorted_def nth_element_def)

lemma qualifying_example: "qualifying [0.1, 0.9, 0.05, 0.8, 0.3] = [0, 1, 3, 4]"
  unfolding qualifying_def partiallySorted_example
  by (simp add: is_primary_def upt_rec)

lemma positiveIndices_example: "positiveIndices [0.1, 0.9, 0.05, 0.8, 0.3] = [0, 1, 2, 3, 4]"
  by (simp add: positiveIndices_def upt_rec)

lemma findPrimaryIndices_example: "findPrimaryIndices [0.1, 0.9, 0.05, 0.8, 0.3] = Vec4 0 1 3 4"
  by (simp add: findPrimaryIndices_def partiallySorted_def nth_element_def is_primary_def
      vec_set_def)

theorem findPrimaryIndices_selection_witness:
  "4 < length [0.1, 0.9, 0.05, 0.8, 0.3 :: real] \<and>
   length (qualifying [0.1, 0.9, 0.05, 0.8, 0.3]) \<le> 4 \<and>
   placed (findPrimaryIndices [0.1, 0.9, 0.05, 0.8, 0.3]) = [0, 1, 3, 4] \<and>
   length (placed (findPrimaryIndices [0.1, 0.9, 0.05, 0.8, 0.3])) =
     min 4 (length (positiveIndices [0.1, 0.9, 0.05, 0.8, 0.3])) \<and>
   list_all (\<lambda>i. [0.1, 0.9, 0.05, 0.8, 0.3 :: real] ! 2 < [0.1, 0.9, 0.05, 0.8, 0.3] ! i)
     (placed (findPrimaryIndices [0.1, 0.9, 0.05, 0.8, 0.3]))"
proof -
  let ?ws = "[0.1, 0.9, 0.05, 0.8, 0.3] :: real list"
  have l: "4 < length ?ws" by simp
  have q: "length (qualifying ?ws) \<le> 4" unfolding qualifying_example by simp
  have p: "placed (findPrimaryIndices ?ws) = [0, 1, 3, 4]"
    unfolding findPrimaryIndices_example by (simp add: placed_def vec_list_def kUnused_def)
  note s = findPrimaryIndices_selection[OF l]
  have 1: "length (placed (findPrimaryIndices ?ws)) = min 4 (length (positiveIndices ?ws))"
    using s by blast
  have "\<forall>i \<in> set (placed (findPrimaryIndices ?ws)). \<forall>j < min (length ?ws) 255.
          j \<notin> set (placed (findPrimaryIndices ?ws)) \<longrightarrow> ?ws ! j < ?ws ! i"
    using s q by blast
  then have "\<forall>i \<in> set (placed (findPrimaryIndices ?ws)). ?ws ! 2 < ?ws ! i"
    unfolding p by simp
  then have 2: "list_all (\<lambda>i. ?ws ! 2 < ?ws ! i) (placed (findPrimaryIndices ?ws))"
    by (simp only: list_all_iff)
  show ?thesis using l q p 1 2 by blast
qed

lemma findPrimaryIndices_zeros:
  "findPrimaryIndices [0, 0, 0, 0, 0] = Vec4 kUnused kUnused kUnused kUnused"
  by (simp add: findPrimaryIndices_def partiallySorted_def nth_element_def is_primary_def)

text \<open>
  Claim C1 as stated fails: the scan accepts a weight only when it is above zero (line 89),
  so five weights 0 leave all four entries of the tuple at the sentinel, although
  \<open>min 4 count = 4\<close>.
\<close>

theorem findPrimaryIndices_selection_counterexample:
  "4 < length [0, 0, 0, 0, 0 :: real] \<and>
   findPrimaryIndices [0, 0, 0, 0, 0] = Vec4 kUnused kUnused kUnused kUnused \<and>
   length (placed (findPrimaryIndices [0, 0, 0, 0, 0])) = 0 \<and>
   min 4 (min (length [0, 0, 0, 0, 0 :: real]) 255) = 4 \<and>
   length (placed (findPrimaryIndices [0, 0, 0, 0, 0])) \<noteq>
     min 4 (min (length [0, 0, 0, 0, 0 :: real]) 255)"
  unfolding findPrimaryIndices_zeros
  by (simp add: placed_def vec_list_def kUnused_def)

text \<open>
  Ties are outside the amended claim. The scan compares each weight with the four largest
  values and stops at four accepted indices, so when more than four indices carry one of
  those values the four lowest ones are taken: with the weight 0.5 five times and then 1,
  index 5 with the largest weight is not placed. The comments of lines 78 and 83 and of
  the header (the four most influential weights) say otherwise.
\<close>

lemma findPrimaryIndices_ties:
  "findPrimaryIndices [0.5, 0.5, 0.5, 0.5, 0.5, 1] = Vec4 0 1 2 3"
  by (simp add: findPrimaryIndices_def partiallySorted_def nth_element_def is_primary_def
      vec_set_def)

text \<open>
  Claim C10. For a weight array with more than four entries the entries of the tuple that are
  not the sentinel increase strictly from front to back, and two arrays with the same set
  of qualifying indices give tuples that are equal component by component.
\<close>

theorem findPrimaryIndices_canonical:
  assumes "4 < length weights" "4 < length weights'"
  shows "(\<forall>i j. i < j \<and> j < 4 \<and> vec_get (findPrimaryIndices weights) i \<noteq> kUnused \<and>
                vec_get (findPrimaryIndices weights) j \<noteq> kUnused \<longrightarrow>
                vec_get (findPrimaryIndices weights) i < vec_get (findPrimaryIndices weights) j) \<and>
         (set (qualifying weights) = set (qualifying weights') \<longrightarrow>
            ubyte4_eq (findPrimaryIndices weights) (findPrimaryIndices weights'))"
proof (intro conjI allI impI)
  fix i j
  let ?t = "findPrimaryIndices weights" and ?q = "qualifying weights"
  assume a: "i < j \<and> j < 4 \<and> vec_get ?t i \<noteq> kUnused \<and> vec_get ?t j \<noteq> kUnused"
  then have lt: "i < min 4 (length ?q)" "j < min 4 (length ?q)"
    using findPrimaryIndices_sentinel[OF assms(1)] by auto
  then have e: "vec_get ?t i = of_nat (?q ! i)" "vec_get ?t j = of_nat (?q ! j)"
    using a findPrimaryIndices_entry[OF assms(1)] by auto
  have "?q ! i < ?q ! j"
    using qualifying_sorted[of weights] a lt by (simp add: sorted_wrt_iff_nth_less)
  moreover have "?q ! i < 255" "?q ! j < 255"
    using lt qualifying_bound[of _ weights] by (fastforce simp: in_set_conv_nth)+
  ultimately show "vec_get ?t i < vec_get ?t j"
    unfolding e by (simp add: word_less_nat_alt index_byte)
next
  assume "set (qualifying weights) = set (qualifying weights')"
  moreover have "sorted (qualifying weights) \<and> distinct (qualifying weights)"
    using qualifying_sorted[of weights] by (simp add: strict_sorted_iff)
  moreover have "sorted (qualifying weights') \<and> distinct (qualifying weights')"
    using qualifying_sorted[of weights'] by (simp add: strict_sorted_iff)
  ultimately have "qualifying weights = qualifying weights'"
    by (metis sorted_distinct_set_unique)
  then have "vec_list (findPrimaryIndices weights) = vec_list (findPrimaryIndices weights')"
    by (simp add: findPrimaryIndices_list assms)
  then have "findPrimaryIndices weights = findPrimaryIndices weights'"
    by (rule vec_list_inject)
  then show "ubyte4_eq (findPrimaryIndices weights) (findPrimaryIndices weights')"
    by (simp add: ubyte4_eq_def)
qed

lemma qualifying_example2: "qualifying [1, 2, 0, 3, 4] = [0, 1, 3, 4]"
  by (simp add: qualifying_def partiallySorted_def nth_element_def is_primary_def upt_rec)

theorem findPrimaryIndices_canonical_witness:
  "4 < length [0.1, 0.9, 0.05, 0.8, 0.3 :: real] \<and> 4 < length [1, 2, 0, 3, 4 :: real] \<and>
   set (qualifying [0.1, 0.9, 0.05, 0.8, 0.3]) = set (qualifying [1, 2, 0, 3, 4]) \<and>
   ubyte4_eq (findPrimaryIndices [0.1, 0.9, 0.05, 0.8, 0.3]) (findPrimaryIndices [1, 2, 0, 3, 4]) \<and>
   vec_get (findPrimaryIndices [0.1, 0.9, 0.05, 0.8, 0.3]) 1 <
     vec_get (findPrimaryIndices [0.1, 0.9, 0.05, 0.8, 0.3]) 2"
proof -
  have q: "set (qualifying [0.1, 0.9, 0.05, 0.8, 0.3]) = set (qualifying [1, 2, 0, 3, 4])"
    by (simp only: qualifying_example qualifying_example2)
  have t: "findPrimaryIndices [0.1, 0.9, 0.05, 0.8, 0.3] = Vec4 0 1 3 4"
    by (simp add: findPrimaryIndices_def partiallySorted_def nth_element_def is_primary_def
        vec_set_def)
  have ne: "vec_get (findPrimaryIndices [0.1, 0.9, 0.05, 0.8, 0.3]) 1 \<noteq> kUnused"
           "vec_get (findPrimaryIndices [0.1, 0.9, 0.05, 0.8, 0.3]) 2 \<noteq> kUnused"
    unfolding t by (simp_all add: vec_get_def kUnused_def)
  show ?thesis
    using findPrimaryIndices_canonical[of "[0.1, 0.9, 0.05, 0.8, 0.3]" "[1, 2, 0, 3, 4]"] q ne
    by simp
qed

lemma vec_eqI:
  assumes "\<And>i. i < 4 \<Longrightarrow> vec_get u i = vec_get v i"
  shows "u = v"
proof -
  have "vec_get u 0 = vec_get v 0" "vec_get u 1 = vec_get v 1"
       "vec_get u 2 = vec_get v 2" "vec_get u 3 = vec_get v 3"
    using assms by simp_all
  then show ?thesis
    by (cases u; cases v) (simp add: vec_get_def)
qed

section \<open>Four weights or fewer\<close>

lemma directWeights_fold:
  assumes "n \<le> length weights" "n \<le> 4"
  shows "vec_list (fold (\<lambda>i vec. vec_set vec i (weights ! i)) [0..<n] v) =
           take n weights @ drop n (vec_list v)"
  using assms
proof (induction n)
  case 0
  then show ?case by simp
next
  case (Suc n)
  let ?l = "take n weights @ drop n (vec_list v)"
  have n: "n < 4" "n < length weights" using Suc.prems by simp_all
  have "vec_list (fold (\<lambda>i vec. vec_set vec i (weights ! i)) [0..<Suc n] v) = ?l[n := weights ! n]"
    using Suc n by (simp add: vec_list_vec_set)
  also have "\<dots> = take n weights @ (drop n (vec_list v))[0 := weights ! n]"
    using n by (simp add: list_update_append)
  also have "(drop n (vec_list v))[0 := weights ! n] = weights ! n # drop (Suc n) (vec_list v)"
    using n by (cases "drop n (vec_list v)") (auto simp: length_vec_list drop_Suc drop_tl)
  finally show ?case
    using n by (simp add: take_Suc_conv_app_nth)
qed

lemma directWeights_list:
  assumes "length weights \<le> 4"
  shows "vec_list (directWeights weights) = weights @ replicate (4 - length weights) 0"
proof -
  have "vec_list (directWeights weights) = take (length weights) weights @
          drop (length weights) (vec_list (Vec4 0 0 0 0 :: float4))"
    unfolding directWeights_def using assms by (intro directWeights_fold) simp_all
  moreover have "vec_list (Vec4 0 0 0 0 :: float4) = replicate 4 0"
    by (simp add: vec_list_def numeral_eq_Suc)
  ultimately show ?thesis by simp
qed

text \<open>
  Claim C3. With four weights or fewer, \<open>applyWeights\<close> succeeds, leaves the morph table and
  the vertex buffers as they were, and makes one call on the renderable manager: it sets
  the weight uniform to the weights in order, followed by zeros.
\<close>

theorem applyWeights_direct:
  assumes "length weights \<le> 4"
  shows "\<exists>s'. applyWeights asset entity weights s = Inr s' \<and>
           mMorphTable s' = mMorphTable s \<and> built s' = built s \<and>
           destroyed s' = destroyed s \<and>
           renderableCalls s' =
             renderableCalls s @ [SetMorphWeights entity (directWeights weights)] \<and>
           vec_list (directWeights weights) = weights @ replicate (4 - length weights) 0"
  using assms by (simp add: applyWeights_def directWeights_list)

theorem applyWeights_direct_witness:
  "length [0.5, 0.5, 0.5 :: real] \<le> 4 \<and>
   (\<exists>s'. applyWeights \<lparr>mNodeMap = Map.empty, mMeshCache = Map.empty\<rparr> 7 [0.5, 0.5, 0.5]
            newMorphHelper = Inr s' \<and>
      mMorphTable s' = [] \<and> built s' = [] \<and>
      renderableCalls s' = [SetMorphWeights 7 (Vec4 0.5 0.5 0.5 0)])"
proof -
  have "directWeights [0.5, 0.5, 0.5] = Vec4 0.5 0.5 0.5 0"
    by (simp add: directWeights_def vec_set_def upt_rec)
  then show ?thesis
    using applyWeights_direct[of "[0.5, 0.5, 0.5]"
        "\<lparr>mNodeMap = Map.empty, mMeshCache = Map.empty\<rparr>" 7 newMorphHelper]
    by (auto simp: newMorphHelper_def)
qed

section \<open>The cache key\<close>

text \<open>
  Claim C4. Two cache keys are equal exactly when their entities are equal and their tuples
  are equal position by position; two tuples that hold the same indices in another order
  are different keys, and a table search does not find the one under the other.
\<close>

theorem MorphKeyEqualFn_exact:
  "(MorphKeyEqualFn k1 k2 \<longleftrightarrow>
      targetEntity k1 = targetEntity k2 \<and>
      vec_get (primaryIndices k1) 0 = vec_get (primaryIndices k2) 0 \<and>
      vec_get (primaryIndices k1) 1 = vec_get (primaryIndices k2) 1 \<and>
      vec_get (primaryIndices k1) 2 = vec_get (primaryIndices k2) 2 \<and>
      vec_get (primaryIndices k1) 3 = vec_get (primaryIndices k2) 3) \<and>
   (MorphKeyEqualFn k1 k2 \<longleftrightarrow> k1 = k2) \<and>
   (a \<noteq> b \<longrightarrow>
      \<not> MorphKeyEqualFn \<lparr>targetEntity = e, primaryIndices = Vec4 a b c d\<rparr>
          \<lparr>targetEntity = e, primaryIndices = Vec4 b a c d\<rparr> \<and>
      table_find [(\<lparr>targetEntity = e, primaryIndices = Vec4 a b c d\<rparr>, v)]
          \<lparr>targetEntity = e, primaryIndices = Vec4 b a c d\<rparr> = None)"
proof -
  have "vx (primaryIndices k1) = vx (primaryIndices k2) \<and>
        vy (primaryIndices k1) = vy (primaryIndices k2) \<and>
        vz (primaryIndices k1) = vz (primaryIndices k2) \<and>
        vw (primaryIndices k1) = vw (primaryIndices k2) \<longleftrightarrow>
        primaryIndices k1 = primaryIndices k2"
    by (cases "primaryIndices k1"; cases "primaryIndices k2") simp
  then have "MorphKeyEqualFn k1 k2 \<longleftrightarrow> k1 = k2"
    by (cases k1; cases k2) (auto simp: MorphKeyEqualFn_def ubyte4_eq_def)
  then show ?thesis
    by (auto simp: MorphKeyEqualFn_def ubyte4_eq_def vec_get_def)
qed

theorem MorphKeyEqualFn_exact_witness:
  "(1 :: u8) \<noteq> 3 \<and>
   \<not> MorphKeyEqualFn \<lparr>targetEntity = 7, primaryIndices = Vec4 1 3 4 kUnused\<rparr>
       \<lparr>targetEntity = 7, primaryIndices = Vec4 3 1 4 kUnused\<rparr> \<and>
   table_find [(\<lparr>targetEntity = 7, primaryIndices = Vec4 1 3 4 kUnused\<rparr>, [])]
       \<lparr>targetEntity = 7, primaryIndices = Vec4 3 1 4 kUnused\<rparr> = None"
  using MorphKeyEqualFn_exact[of "\<lparr>targetEntity = 7, primaryIndices = Vec4 1 3 4 kUnused\<rparr>"
      "\<lparr>targetEntity = 7, primaryIndices = Vec4 3 1 4 kUnused\<rparr>" 1 3 7 4 kUnused "[]"]
  by (simp add: vec_get_def)

section \<open>The weight uniform\<close>

lemma safeSet_get:
  assumes "i < 4"
  shows "vec_get (safeSet t) i = (if vec_get t i = kUnused then 0 else vec_get t i)"
proof -
  have z: "(0 :: u8) \<noteq> kUnused" by (simp add: kUnused_def)
  from assms consider "i = 0" | "i = 1" | "i = 2" | "i = 3" by linarith
  then show ?thesis
    using z by cases (cases t; simp add: safeSet_def vec_get_def vec_set_def)+
qed

lemma highest_get:
  assumes "i < 4"
  shows "vec_get (highest weights t) i =
           (if vec_get t i = kUnused then weights ! 0 else weights ! unat (vec_get t i))"
proof -
  have "vec_get (highest weights t) i = weights ! unat (vec_get (safeSet t) i)"
    using assms unfolding highest_def Let_def
    by (auto simp: vec_get_def less_Suc_eq numeral_eq_Suc)
  then show ?thesis by (simp add: safeSet_get[OF assms])
qed

lemma applyWeights_last_call:
  assumes "4 < length weights" "applyWeights asset entity weights s = Inr s'"
  shows "last (renderableCalls s') =
           SetMorphWeights entity (highest weights (findPrimaryIndices weights))"
  using assms
  by (auto simp: applyWeights_def Let_def split: option.splits sum.splits prod.splits)

text \<open>
  Claim C5. With more than four weights, the last call of a successful \<open>applyWeights\<close> sets the
  weight uniform; a slot whose tuple entry is the sentinel carries the weight of target 0,
  and any other slot carries the weight of the index in that entry, which is the
  qualifying index of that position and lies below the clamped count.
\<close>

theorem applyWeights_uniform:
  assumes "4 < length weights" "applyWeights asset entity weights s = Inr s'"
  shows "last (renderableCalls s') =
           SetMorphWeights entity (highest weights (findPrimaryIndices weights)) \<and>
         (\<forall>i < 4.
            (vec_get (findPrimaryIndices weights) i = kUnused \<longrightarrow>
               vec_get (highest weights (findPrimaryIndices weights)) i = weights ! 0) \<and>
            (vec_get (findPrimaryIndices weights) i \<noteq> kUnused \<longrightarrow>
               vec_get (highest weights (findPrimaryIndices weights)) i =
                 weights ! unat (vec_get (findPrimaryIndices weights) i) \<and>
               unat (vec_get (findPrimaryIndices weights) i) = qualifying weights ! i \<and>
               qualifying weights ! i < min (length weights) 255))"
proof (intro conjI allI impI)
  show "last (renderableCalls s') =
          SetMorphWeights entity (highest weights (findPrimaryIndices weights))"
    by (rule applyWeights_last_call[OF assms])
next
  fix i :: nat assume "i < 4" "vec_get (findPrimaryIndices weights) i = kUnused"
  then show "vec_get (highest weights (findPrimaryIndices weights)) i = weights ! 0"
    by (simp add: highest_get)
next
  fix i :: nat assume i: "i < 4" and ne: "vec_get (findPrimaryIndices weights) i \<noteq> kUnused"
  show "vec_get (highest weights (findPrimaryIndices weights)) i =
          weights ! unat (vec_get (findPrimaryIndices weights) i)"
    using i ne by (simp add: highest_get)
  have lt: "i < min 4 (length (qualifying weights))"
    using findPrimaryIndices_sentinel[OF assms(1) i] ne by simp
  then have e: "vec_get (findPrimaryIndices weights) i = of_nat (qualifying weights ! i)"
    by (simp only: findPrimaryIndices_entry[OF assms(1) i] if_True)
  have "qualifying weights ! i \<in> set (qualifying weights)" using lt by simp
  then show b: "qualifying weights ! i < min (length weights) 255"
    by (rule qualifying_bound)
  then show "unat (vec_get (findPrimaryIndices weights) i) = qualifying weights ! i"
    unfolding e using index_byte by simp
qed

section \<open>More than 255 weights\<close>

lemma byte_below_sentinel: "b \<noteq> kUnused \<Longrightarrow> unat (b :: u8) < 255"
proof -
  assume ne: "b \<noteq> kUnused"
  have "unat b < 256" using unsigned_less[of b, where 'a = nat] by simp
  moreover have "unat b \<noteq> 255"
  proof
    assume "unat b = 255"
    then have "b = 255" by (simp add: word_unat_eq_iff)
    then show False using ne by (simp add: kUnused_def)
  qed
  ultimately show ?thesis by simp
qed

lemma partiallySorted_truncate:
  "255 < length weights \<Longrightarrow> partiallySorted (take 255 weights) = partiallySorted weights"
  by (simp add: partiallySorted_def Let_def)

lemma qualifying_truncate:
  assumes "255 < length weights"
  shows "qualifying (take 255 weights) = qualifying weights"
proof -
  have "min (length weights) 255 = 255" "min (length (take 255 weights)) 255 = 255"
    using assms by simp_all
  then show ?thesis
    unfolding qualifying_def partiallySorted_truncate[OF assms]
    by (auto intro!: filter_cong)
qed

lemma findPrimaryIndices_truncate:
  assumes "255 < length weights"
  shows "findPrimaryIndices (take 255 weights) = findPrimaryIndices weights"
proof -
  have "vec_list (findPrimaryIndices (take 255 weights)) = vec_list (findPrimaryIndices weights)"
    using assms by (simp add: findPrimaryIndices_list qualifying_truncate)
  then show ?thesis by (rule vec_list_inject)
qed

lemma highest_truncate:
  assumes "255 < length weights"
  shows "highest (take 255 weights) t = highest weights t"
proof (rule vec_eqI)
  fix i :: nat assume i: "i < 4"
  show "vec_get (highest (take 255 weights) t) i = vec_get (highest weights t) i"
    using assms byte_below_sentinel[of "vec_get t i"] by (simp add: highest_get[OF i])
qed

text \<open>
  Claim C9. With more than 255 weights, \<open>applyWeights\<close> does exactly what it does on the first
  255 of them: the same tuple, hence the same key, and the same outcome and state (table,
  vertex buffers, calls); the entries from index 255 on are never looked at, and the length
  is the cause of no failure.
\<close>

theorem applyWeights_truncates:
  assumes "255 < length weights"
  shows "findPrimaryIndices weights = findPrimaryIndices (take 255 weights) \<and>
         applyWeights asset entity weights s = applyWeights asset entity (take 255 weights) s"
proof -
  have l: "\<not> length weights \<le> 4" "\<not> length (take 255 weights) \<le> 4"
    using assms by simp_all
  show ?thesis
    by (simp only: applyWeights_def l if_False findPrimaryIndices_truncate[OF assms]
        highest_truncate[OF assms] partiallySorted_truncate[OF assms])
qed

section \<open>The cache\<close>

lemma MorphKeyEqualFn_refl: "MorphKeyEqualFn k k"
  by (simp add: MorphKeyEqualFn_def ubyte4_eq_def)

lemma table_find_append:
  "table_find (t @ [(k, v)]) k' =
     (case table_find t k' of
        Some x \<Rightarrow> Some x
      | None \<Rightarrow> if MorphKeyEqualFn k k' then Some v else None)"
  by (induction t) auto

lemma table_find_insert:
  "table_find t k = None \<Longrightarrow> table_find (table_insert t k v) k = Some v"
  by (simp add: table_insert_def table_find_append MorphKeyEqualFn_refl)

text \<open>What one call of \<open>applyWeights\<close> with more than four weights does, by the outcome
  of the table search.\<close>

lemma applyWeights_hit:
  assumes "4 < length weights"
    and "table_find (mMorphTable s) \<lparr>targetEntity = entity, primaryIndices = findPrimaryIndices weights\<rparr> = Some v"
  shows "applyWeights asset entity weights s =
           Inr (s\<lparr>mPartiallySortedWeights := partiallySorted weights,
                  renderableCalls := renderableCalls s @ setGeometry entity v @
                    [SetMorphWeights entity (highest weights (findPrimaryIndices weights))]\<rparr>)"
  using assms by (simp add: applyWeights_def Let_def)

lemma applyWeights_miss:
  assumes "4 < length weights"
    and "table_find (mMorphTable s) \<lparr>targetEntity = entity, primaryIndices = findPrimaryIndices weights\<rparr> = None"
  shows "applyWeights asset entity weights s =
           (case createMorphTableEntry asset entity (findPrimaryIndices weights) (built s) of
              Inl e \<Rightarrow> Inl e
            | Inr (v, engine') \<Rightarrow>
                Inr (s\<lparr>mPartiallySortedWeights := partiallySorted weights,
                       mMorphTable := mMorphTable s @
                         [(\<lparr>targetEntity = entity, primaryIndices = findPrimaryIndices weights\<rparr>, v)],
                       built := engine',
                       renderableCalls := renderableCalls s @ setGeometry entity v @
                         [SetMorphWeights entity (highest weights (findPrimaryIndices weights))]\<rparr>))"
  using assms
  by (simp add: applyWeights_def Let_def table_insert_def split: sum.splits prod.splits)

text \<open>
  Claim C2. After a successful \<open>applyWeights\<close>, the same call again succeeds, finds its key in
  the table when there are more than four weights, leaves the table and the vertex
  buffers built so far as they are, and makes the same calls on the renderable manager as
  the first one did, with the same vertex buffers.
\<close>

theorem applyWeights_twice:
  assumes "applyWeights asset entity weights s = Inr s1"
  shows "\<exists>s2 calls.
           applyWeights asset entity weights s1 = Inr s2 \<and>
           mMorphTable s2 = mMorphTable s1 \<and> built s2 = built s1 \<and>
           renderableCalls s1 = renderableCalls s @ calls \<and>
           renderableCalls s2 = renderableCalls s1 @ calls \<and>
           (4 < length weights \<longrightarrow>
              table_find (mMorphTable s1)
                \<lparr>targetEntity = entity, primaryIndices = findPrimaryIndices weights\<rparr> \<noteq> None)"
proof (cases "4 < length weights")
  case False
  then show ?thesis
    using assms by (auto simp: applyWeights_def)
next
  case long: True
  let ?key = "\<lparr>targetEntity = entity, primaryIndices = findPrimaryIndices weights\<rparr>"
  let ?w = "SetMorphWeights entity (highest weights (findPrimaryIndices weights))"
  show ?thesis
  proof (cases "table_find (mMorphTable s) ?key")
    case (Some v)
    have s1: "s1 = s\<lparr>mPartiallySortedWeights := partiallySorted weights,
                     renderableCalls := renderableCalls s @ setGeometry entity v @ [?w]\<rparr>"
      using assms applyWeights_hit[OF long Some] by simp
    then have f: "table_find (mMorphTable s1) ?key = Some v"
      using Some by simp
    show ?thesis
      using applyWeights_hit[OF long f, of asset] f s1 by simp
  next
    case None
    obtain v engine' where
      c: "createMorphTableEntry asset entity (findPrimaryIndices weights) (built s) = Inr (v, engine')"
      using assms applyWeights_miss[OF long None, of asset]
      by (auto split: sum.splits)
    have s1: "s1 = s\<lparr>mPartiallySortedWeights := partiallySorted weights,
                     mMorphTable := mMorphTable s @ [(?key, v)], built := engine',
                     renderableCalls := renderableCalls s @ setGeometry entity v @ [?w]\<rparr>"
      using assms applyWeights_miss[OF long None, of asset] c by simp
    have f: "table_find (mMorphTable s1) ?key = Some v"
      using None by (simp add: s1 table_find_append MorphKeyEqualFn_refl)
    show ?thesis
      using applyWeights_hit[OF long f, of asset] f s1 by simp
  qed
qed

section \<open>Teardown\<close>

lemma upt_split: "a \<le> b \<Longrightarrow> [0..<a] @ [a..<b] = [0..<b]"
  by (metis le_add_diff_inverse upt_add_eq_append zero_le)

lemma count_list_upt: "count_list [0..<n] v = (if v < n then 1 else 0)"
  by (induction n) auto

lemma createVertexBuffer_handle:
  assumes "createVertexBuffer prim uv pidx engine = Inr (vb, engine')"
  shows "vb = length engine \<and> length engine' = Suc (length engine)"
  using assms
  by (auto simp: createVertexBuffer_def Let_def split: sum.splits)

lemma createPrimitives_handles:
  assumes "createPrimitives prims cached i pidx engine = Inr (val, engine')"
  shows "map vertices val = [length engine..<length engine'] \<and> length engine \<le> length engine'"
  using assms
proof (induction prims arbitrary: i engine val)
  case Nil
  then show ?case by simp
next
  case (Cons prim prims)
  from Cons.prems obtain vb e1 rest cp where
    cp: "cached = Some cp" and i: "i < length cp"
    and c: "createVertexBuffer prim (uvmap (cp ! i)) pidx engine = Inr (vb, e1)"
    and r: "createPrimitives prims cached (i + 1) pidx e1 = Inr (rest, engine')"
    and v: "val = \<lparr>vertices = vb, indices = assetIndices (cp ! i), ptype = gltfType prim\<rparr> # rest"
    by (auto simp: Let_def split: option.splits if_splits sum.splits prod.splits)
  have h: "vb = length engine" "length e1 = Suc (length engine)"
    using createVertexBuffer_handle[OF c] by simp_all
  have ih: "map vertices rest = [length e1..<length engine']" "length e1 \<le> length engine'"
    using Cons.IH[OF r] by simp_all
  show ?case
    using h ih v by (simp add: upt_conv_Cons)
qed

lemma createMorphTableEntry_handles:
  assumes "createMorphTableEntry asset entity pidx engine = Inr (val, engine')"
  shows "map vertices val = [length engine..<length engine'] \<and> length engine \<le> length engine'"
  using assms createPrimitives_handles
  by (auto simp: createMorphTableEntry_def split: option.splits)

lemma applyWeights_handles:
  assumes "applyWeights asset entity weights s = Inr s'"
    and "tableHandles s = [0..<length (built s)]"
  shows "tableHandles s' = [0..<length (built s')] \<and> destroyed s' = destroyed s"
proof (cases "4 < length weights")
  case False
  then show ?thesis
    using assms by (auto simp: applyWeights_def tableHandles_def)
next
  case long: True
  let ?key = "\<lparr>targetEntity = entity, primaryIndices = findPrimaryIndices weights\<rparr>"
  show ?thesis
  proof (cases "table_find (mMorphTable s) ?key")
    case (Some v)
    then show ?thesis
      using assms applyWeights_hit[OF long Some, of asset] by (auto simp: tableHandles_def)
  next
    case None
    obtain v engine' where
      c: "createMorphTableEntry asset entity (findPrimaryIndices weights) (built s) = Inr (v, engine')"
      using assms applyWeights_miss[OF long None, of asset]
      by (auto split: sum.splits)
    have h: "map vertices v = [length (built s)..<length engine']" "length (built s) \<le> length engine'"
      using createMorphTableEntry_handles[OF c] by simp_all
    have "tableHandles s' = tableHandles s @ map vertices v" "built s' = engine'"
         "destroyed s' = destroyed s"
      using assms(1) applyWeights_miss[OF long None, of asset] c
      by (auto simp: tableHandles_def)
    then show ?thesis
      using h assms(2) by (simp add: upt_split)
  qed
qed

lemma applyAll_handles:
  assumes "applyAll asset calls s = Inr s'"
    and "tableHandles s = [0..<length (built s)]"
  shows "tableHandles s' = [0..<length (built s')] \<and> destroyed s' = destroyed s"
  using assms
proof (induction calls arbitrary: s)
  case Nil
  then show ?case by simp
next
  case (Cons call calls)
  obtain entity weights where call: "call = (entity, weights)" by (cases call)
  from Cons.prems(1) obtain s1 where
    a: "applyWeights asset entity weights s = Inr s1" and r: "applyAll asset calls s1 = Inr s'"
    by (auto simp: call split: sum.splits)
  have "tableHandles s1 = [0..<length (built s1)]" "destroyed s1 = destroyed s"
    using applyWeights_handles[OF a Cons.prems(2)] by simp_all
  then show ?case using Cons.IH[OF r] by simp
qed

text \<open>
  Claim C6. After any successful sequence of \<open>applyWeights\<close> calls on a new helper, nothing
  has been destroyed yet, and the destructor asks the engine to destroy the vertex buffers
  of the table entries: these are all the vertex buffers built, each one once.
\<close>

theorem destructor_destroys_once:
  assumes "applyAll asset calls newMorphHelper = Inr s"
  shows "destroyed s = [] \<and>
         destroyed (destructor s) = tableHandles s \<and>
         tableHandles s = [0..<length (built s)] \<and>
         distinct (destroyed (destructor s)) \<and>
         set (destroyed (destructor s)) = {0..<length (built s)} \<and>
         (\<forall>vb < length (built s). count_list (destroyed (destructor s)) vb = 1)"
proof -
  have "tableHandles newMorphHelper = [0..<length (built newMorphHelper)]"
    by (simp add: tableHandles_def newMorphHelper_def)
  from applyAll_handles[OF assms this]
  have t: "tableHandles s = [0..<length (built s)]" and d: "destroyed s = []"
    by (simp_all add: newMorphHelper_def)
  have dd: "destroyed (destructor s) = tableHandles s"
    using d by (simp add: destructor_def tableHandles_def)
  have "\<forall>vb < length (built s). count_list [0..<length (built s)] vb = 1"
    by (simp add: count_list_upt)
  then show ?thesis
    using d dd t by simp
qed

section \<open>The synthesizer, step by step\<close>

lemma length_storeAt: "length (storeAt xs i v) = max (length xs) (i + 1)"
  by (simp add: storeAt_def)


lemma set_storeAt: "set (storeAt xs i v) \<subseteq> insert v (insert None (set xs))"
  using set_update_subset_insert[of xs i v] by (auto simp: storeAt_def)


lemma storeBuffer_fields:
  "slot (storeBuffer d st) = slot st + 1"
  "buffers (storeBuffer d st) = storeAt (buffers st) (slot st) (Some d)"
  "vbb (storeBuffer d st) = vbb st"
  "hasUv0 (storeBuffer d st) = hasUv0 st"
  "hasUv1 (storeBuffer d st) = hasUv1 st"
  "hasVertexColor (storeBuffer d st) = hasVertexColor st"
  "hasNormals (storeBuffer d st) = hasNormals st"
  by (simp_all add: storeBuffer_def)

lemma declareAttribute_fields:
  "slot (declareAttribute sem sl ty off str nrm st) = slot st"
  "buffers (declareAttribute sem sl ty off str nrm st) = buffers st"
  "vbb (declareAttribute sem sl ty off str nrm st) =
     (vbb st)(sem \<mapsto> \<lparr>bufferIndex = sl, attributeType = ty, byteOffset = off,
                          byteStride = str, declNormalized = nrm\<rparr>)"
  "hasUv0 (declareAttribute sem sl ty off str nrm st) = hasUv0 st"
  "hasUv1 (declareAttribute sem sl ty off str nrm st) = hasUv1 st"
  "hasVertexColor (declareAttribute sem sl ty off str nrm st) = hasVertexColor st"
  "hasNormals (declareAttribute sem sl ty off str nrm st) = hasNormals st"
  by (simp_all add: declareAttribute_def)

lemma bindAccessor_Inr:
  assumes "bindAccessor (Some sem) acc st = Inr st'"
  shows "\<exists>a. acc = Some a \<and>
           st' = storeBuffer (ClonedBuffer (binding a))
                   (declareAttribute sem (slot st) (fatype a) 0 (stride a) (normalized a) st)"
  using assms
  by (auto simp: bindAccessor_def createBufferDescriptor_def split: option.splits)

text \<open>The counters and flags after each step.\<close>

lemma bindAccessor_flags:
  assumes "bindAccessor (Some sem) acc st = Inr st'"
  shows "flagsOf st' = (slot st + 1, hasUv0 st, hasUv1 st, hasVertexColor st, hasNormals st)"
  using bindAccessor_Inr[OF assms]
  by (auto simp: flagsOf_def storeBuffer_fields declareAttribute_fields)

lemma baseAttribute_flags:
  assumes "baseAttribute uv a st = Inr st'"
  shows "flagsOf st' =
           (slot st + (if bindsBase uv (hasUv0 st) a then 1 else 0),
            hasUv0 st \<or> bindsUv0 uv (hasUv0 st) a,
            hasUv1 st \<or> bindsUv1 uv a,
            hasVertexColor st \<or> atype a = cgltf_attribute_type_color,
            hasNormals st \<or> atype a = cgltf_attribute_type_normal)"
proof (cases "atype a = cgltf_attribute_type_texcoord")
  case True
  then show ?thesis
    using assms
    by (auto simp: baseAttribute_def Let_def flagsOf_def bindsBase_def bindsUv0_def bindsUv1_def
        getVertexAttrType_def storeBuffer_fields declareAttribute_fields
        dest!: bindAccessor_Inr split: if_splits UvSet.splits)
next
  case False
  then show ?thesis
    using assms
    by (auto simp: baseAttribute_def Let_def flagsOf_def bindsBase_def bindsUv0_def bindsUv1_def
        bindAccessor_def storeBuffer_fields declareAttribute_fields
        split: if_splits option.splits)
qed

lemma baseAttributes_flags:
  assumes "baseAttributes uv as st = Inr st'"
  shows "flagsOf st' =
           (slot st + baseSlots uv (hasUv0 st) as,
            baseUv0 uv (hasUv0 st) as,
            hasUv1 st \<or> list_ex (bindsUv1 uv) as,
            hasVertexColor st \<or> list_ex (\<lambda>a. atype a = cgltf_attribute_type_color) as,
            hasNormals st \<or> list_ex (\<lambda>a. atype a = cgltf_attribute_type_normal) as)"
  using assms
proof (induction as arbitrary: st)
  case Nil
  then show ?case by (simp add: flagsOf_def)
next
  case (Cons a as)
  from Cons.prems obtain st1 where
    a: "baseAttribute uv a st = Inr st1" and r: "baseAttributes uv as st1 = Inr st'"
    by (auto split: sum.splits)
  show ?case
    using Cons.IH[OF r] baseAttribute_flags[OF a]
    by (auto simp: flagsOf_def)
qed

lemma flatNormals_flags:
  "flagsOf (flatNormals prim st) =
     (slot st + (if material prim \<noteq> None \<and> \<not> unlit (the (material prim)) \<and> \<not> hasNormals st
                 then 1 else 0),
      hasUv0 st, hasUv1 st, hasVertexColor st, hasNormals st)"
  by (simp add: flatNormals_def flagsOf_def storeBuffer_fields declareAttribute_fields)

lemma morphAttribute_flags:
  assumes "morphAttribute tc ti a st = Inr st'"
  shows "flagsOf st' =
           (slot st + (if atype a \<noteq> cgltf_attribute_type_tangent then 1 else 0),
            hasUv0 st, hasUv1 st, hasVertexColor st, hasNormals st)"
  using assms
  by (auto simp: morphAttribute_def flagsOf_def storeBuffer_fields declareAttribute_fields
      dest!: bindAccessor_Inr split: if_splits)

lemma morphAttributes_flags:
  assumes "morphAttributes tc ti as st = Inr st'"
  shows "flagsOf st' =
           (slot st + targetSlots as, hasUv0 st, hasUv1 st, hasVertexColor st, hasNormals st)"
  using assms
proof (induction as arbitrary: st)
  case Nil
  then show ?case by (simp add: flagsOf_def targetSlots_def)
next
  case (Cons a as)
  from Cons.prems obtain st1 where
    a: "morphAttribute tc ti a st = Inr st1" and r: "morphAttributes tc ti as st1 = Inr st'"
    by (auto split: sum.splits)
  show ?case
    using Cons.IH[OF r] morphAttribute_flags[OF a]
    by (auto simp: flagsOf_def targetSlots_def)
qed

lemma morphTargets_flags:
  assumes "morphTargets prim pidx tc st = Inr st'" "tc \<le> 4"
  shows "flagsOf st' =
           (slot st + morphSlots prim (drop tc (vec_list pidx)),
            hasUv0 st, hasUv1 st, hasVertexColor st, hasNormals st)"
  using assms
proof (induction prim pidx tc st rule: morphTargets.induct)
  case (1 prim pidx tc st)
  show ?case
  proof (cases "tc < 4")
    case False
    then have "tc = 4" using "1.prems" by simp
    then show ?thesis
      using "1.prems" by (simp add: flagsOf_def morphSlots_def length_vec_list)
  next
    case True
    have dr: "drop tc (vec_list pidx) = vec_get pidx tc # drop (tc + 1) (vec_list pidx)"
      using True by (simp add: vec_get_nth length_vec_list Cons_nth_drop_Suc)
    show ?thesis
    proof (cases "vec_get pidx tc = kUnused")
      case u: True
      then have "st' = st" using "1.prems" True by simp
      then show ?thesis using u dr by (simp add: flagsOf_def morphSlots_def)
    next
      case u: False
      from "1.prems" True u obtain st1 where
        rng: "\<not> length (targets prim) \<le> unat (vec_get pidx tc)"
        and a: "morphAttributes tc (unat (vec_get pidx tc))
                  (targets prim ! unat (vec_get pidx tc)) st = Inr st1"
        and r: "morphTargets prim pidx (tc + 1) st1 = Inr st'"
        by (auto simp: Let_def split: if_splits sum.splits)
      have "flagsOf st' =
              (slot st1 + morphSlots prim (drop (tc + 1) (vec_list pidx)),
               hasUv0 st1, hasUv1 st1, hasVertexColor st1, hasNormals st1)"
        using "1.IH"[OF True refl u rng a r] True by simp
      then show ?thesis
        using morphAttributes_flags[OF a] u dr
        by (simp add: flagsOf_def morphSlots_def)
    qed
  qed
qed

lemma fallbackPass_flags:
  "slot (fallbackPass vc st) =
     slot st + (if hasUv0 st \<and> hasUv1 st \<and> hasVertexColor st then 0 else 1)"
  by (simp add: fallbackPass_def Let_def storeBuffer_fields declareAttribute_fields)

lemma beforeFallback_flags:
  assumes "beforeFallback prim uv pidx = Inr st"
  shows "slot st = baseSlots uv False (attributes prim) +
           (if needsFlatNormals prim then 1 else 0) + morphSlots prim (vec_list pidx) \<and>
         (hasUv0 st \<and> hasUv1 st \<and> hasVertexColor st \<longleftrightarrow> \<not> needsDummy prim uv)"
proof -
  from assms obtain st1 where
    b: "baseAttributes uv (attributes prim) initial_locals = Inr st1"
    and m: "morphTargets prim pidx 0 (flatNormals prim st1) = Inr st"
    by (auto simp: beforeFallback_def split: sum.splits)
  show ?thesis
    using baseAttributes_flags[OF b] flatNormals_flags[of prim st1] morphTargets_flags[OF m]
    by (auto simp: flagsOf_def initial_locals_def needsFlatNormals_def needsDummy_def)
qed

lemma slotsInv_initial: "slotsInv initial_locals \<and> flagsInv initial_locals"
  by (simp add: slotsInv_def flagsInv_def initial_locals_def isDummy_def)

lemma slotsInv_store:
  assumes "slotsInv st" "\<not> isDummy (Some b)"
  shows "slotsInv (storeBuffer b (declareAttribute sem (slot st) ty off str nrm st))"
proof -
  have "\<forall>x \<in> set (storeAt (buffers st) (slot st) (Some b)). \<not> isDummy x"
    using assms set_storeAt[of "buffers st" "slot st" "Some b"]
    by (auto simp: slotsInv_def isDummy_def)
  then show ?thesis
    using assms(1)
    by (auto simp: slotsInv_def storeBuffer_fields declareAttribute_fields length_storeAt
        less_Suc_eq)
qed

lemma slotsInv_flags_update:
  "slotsInv (st\<lparr>hasUv0 := u\<rparr>) = slotsInv st"
  "slotsInv (st\<lparr>hasUv1 := u\<rparr>) = slotsInv st"
  "slotsInv (st\<lparr>hasVertexColor := u\<rparr>) = slotsInv st"
  "slotsInv (st\<lparr>hasNormals := u\<rparr>) = slotsInv st"
  by (simp_all add: slotsInv_def)

lemma bindAccessor_slotsInv:
  assumes "bindAccessor (Some sem) acc st = Inr st'" "slotsInv st"
  shows "slotsInv st'"
proof -
  from bindAccessor_Inr[OF assms(1)] obtain a where
    x: "acc = Some a \<and>
        st' = storeBuffer (ClonedBuffer (binding a))
                (declareAttribute sem (slot st) (fatype a) 0 (stride a) (normalized a) st)" ..
  then have st': "st' = storeBuffer (ClonedBuffer (binding a))
                  (declareAttribute sem (slot st) (fatype a) 0 (stride a) (normalized a) st)"
    by (rule conjunct2)
  show ?thesis
    unfolding st' by (rule slotsInv_store[OF assms(2)]) (simp add: isDummy_def)
qed

lemma tangents_slotsInv:
  assumes "slotsInv st"
  shows "slotsInv (storeBuffer (createTangentsBuffer t)
                     (declareAttribute sem (slot st) ty off str nrm st))"
  by (rule slotsInv_store[OF assms]) (simp add: isDummy_def createTangentsBuffer_def)

lemma tangents_flagsInv:
  assumes "flagsInv st" "sem \<noteq> UV0" "sem \<noteq> UV1" "sem \<noteq> COLOR"
  shows "flagsInv (storeBuffer d (declareAttribute sem sl ty off str nrm st))"
  using assms by (auto simp: flagsInv_def storeBuffer_fields declareAttribute_fields)

lemma baseAttribute_slotsInv:
  assumes "baseAttribute uv a st = Inr st'" "slotsInv st"
  shows "slotsInv st'"
proof -
  consider (tangent) "atype a = cgltf_attribute_type_tangent"
    | (normal) "atype a = cgltf_attribute_type_normal"
    | (texcoord) "atype a = cgltf_attribute_type_texcoord"
    | (other) "atype a \<noteq> cgltf_attribute_type_tangent" "atype a \<noteq> cgltf_attribute_type_normal"
        "atype a \<noteq> cgltf_attribute_type_texcoord"
    by blast
  then show ?thesis
  proof cases
    case tangent
    then show ?thesis using assms by (simp add: baseAttribute_def)
  next
    case normal
    then have e: "st' = (storeBuffer (createTangentsBuffer None)
                           (declareAttribute TANGENTS (slot st) SHORT4 0 0 True st))
                        \<lparr>hasNormals := True\<rparr>"
      using assms(1) by (auto simp: baseAttribute_def Let_def)
    show ?thesis
      unfolding e using tangents_slotsInv[OF assms(2)] by (simp add: slotsInv_flags_update)
  next
    case texcoord
    then show ?thesis
      using assms
      by (auto simp: baseAttribute_def Let_def slotsInv_flags_update
          dest!: bindAccessor_slotsInv split: if_splits UvSet.splits)
  next
    case other
    then obtain sem where
      "bindAccessor (Some sem) (adata a)
         (if atype a = cgltf_attribute_type_color then st\<lparr>hasVertexColor := True\<rparr> else st) = Inr st'"
      using assms(1)
      by (cases "getVertexAttrType (atype a)")
         (auto simp: baseAttribute_def Let_def bindAccessor_def split: option.splits)
    then show ?thesis
      using assms(2) by (auto dest!: bindAccessor_slotsInv simp: slotsInv_flags_update split: if_splits)
  qed
qed

lemma bindAccessor_dom:
  assumes "bindAccessor (Some sem) acc st = Inr st'"
  shows "dom (vbb st') = insert sem (dom (vbb st)) \<and> hasUv0 st' = hasUv0 st \<and>
         hasUv1 st' = hasUv1 st \<and> hasVertexColor st' = hasVertexColor st"
  using bindAccessor_Inr[OF assms]
  by (auto simp: storeBuffer_fields declareAttribute_fields)

lemma baseAttribute_texcoord:
  assumes "atype a = cgltf_attribute_type_texcoord" "baseAttribute uv a st = Inr st'"
  shows "st' = st \<or> bindAccessor (Some UV0) (adata a) (st\<lparr>hasUv0 := True\<rparr>) = Inr st' \<or>
         bindAccessor (Some UV1) (adata a) (st\<lparr>hasUv1 := True\<rparr>) = Inr st'"
  using assms by (auto simp: baseAttribute_def Let_def split: if_splits UvSet.splits)

lemma baseAttribute_flagsInv:
  assumes "baseAttribute uv a st = Inr st'" "flagsInv st"
  shows "flagsInv st'"
proof -
  consider (tangent) "atype a = cgltf_attribute_type_tangent"
    | (normal) "atype a = cgltf_attribute_type_normal"
    | (texcoord) "atype a = cgltf_attribute_type_texcoord"
    | (other) "atype a \<noteq> cgltf_attribute_type_tangent" "atype a \<noteq> cgltf_attribute_type_normal"
        "atype a \<noteq> cgltf_attribute_type_texcoord"
    by blast
  then show ?thesis
  proof cases
    case tangent
    then show ?thesis using assms by (simp add: baseAttribute_def)
  next
    case normal
    then have e: "st' = (storeBuffer (createTangentsBuffer None)
                           (declareAttribute TANGENTS (slot st) SHORT4 0 0 True st))
                        \<lparr>hasNormals := True\<rparr>"
      using assms(1) by (auto simp: baseAttribute_def Let_def)
    have "flagsInv (storeBuffer (createTangentsBuffer None)
                      (declareAttribute TANGENTS (slot st) SHORT4 0 0 True st))"
      by (rule tangents_flagsInv[OF assms(2)]) simp_all
    then show ?thesis by (simp add: e flagsInv_def)
  next
    case texcoord
    from baseAttribute_texcoord[OF texcoord assms(1)]
    consider "st' = st"
      | "bindAccessor (Some UV0) (adata a) (st\<lparr>hasUv0 := True\<rparr>) = Inr st'"
      | "bindAccessor (Some UV1) (adata a) (st\<lparr>hasUv1 := True\<rparr>) = Inr st'"
      by blast
    then show ?thesis
    proof cases
      case 1
      then show ?thesis using assms(2) by simp
    next
      case 2
      show ?thesis
        using bindAccessor_dom[OF 2] assms(2) by (simp add: flagsInv_def)
    next
      case 3
      show ?thesis
        using bindAccessor_dom[OF 3] assms(2) by (simp add: flagsInv_def)
    qed
  next
    case other
    let ?st1 = "if atype a = cgltf_attribute_type_color then st\<lparr>hasVertexColor := True\<rparr> else st"
    from other obtain sem where
      g: "getVertexAttrType (atype a) = Some sem"
      and b: "bindAccessor (Some sem) (adata a) ?st1 = Inr st'"
      using assms(1)
      by (cases "getVertexAttrType (atype a)")
         (auto simp: baseAttribute_def Let_def bindAccessor_def split: option.splits)
    have sem: "sem \<noteq> UV0" "sem \<noteq> UV1" "sem = COLOR \<longleftrightarrow> atype a = cgltf_attribute_type_color"
      using g other by (cases "atype a"; simp add: getVertexAttrType_def; blast)+
    have d: "dom (vbb st') = insert sem (dom (vbb st))" "hasUv0 st' = hasUv0 st"
      "hasUv1 st' = hasUv1 st"
      "hasVertexColor st' = (hasVertexColor st \<or> atype a = cgltf_attribute_type_color)"
      using bindAccessor_dom[OF b] by (simp_all split: if_splits)
    show ?thesis
      using assms(2) sem unfolding flagsInv_def d by auto
  qed
qed

lemma baseAttributes_inv:
  assumes "baseAttributes uv as st = Inr st'" "slotsInv st" "flagsInv st"
  shows "slotsInv st' \<and> flagsInv st'"
  using assms
proof (induction as arbitrary: st)
  case Nil
  then show ?case by simp
next
  case (Cons a as)
  from Cons.prems(1) obtain st1 where
    a: "baseAttribute uv a st = Inr st1" and r: "baseAttributes uv as st1 = Inr st'"
    by (auto split: sum.splits)
  show ?case
    using Cons.IH[OF r] baseAttribute_slotsInv[OF a Cons.prems(2)]
      baseAttribute_flagsInv[OF a Cons.prems(3)] by simp
qed

lemma flatNormals_inv:
  assumes "slotsInv st" "flagsInv st"
  shows "slotsInv (flatNormals prim st) \<and> flagsInv (flatNormals prim st)"
proof (cases "material prim \<noteq> None \<and> \<not> unlit (the (material prim)) \<and> \<not> hasNormals st")
  case False
  then show ?thesis using assms by (auto simp: flatNormals_def)
next
  case True
  then have s: "flatNormals prim st =
                  storeBuffer (createTangentsBuffer None)
                    (declareAttribute TANGENTS (slot st) SHORT4 0 0 True st)"
    by (simp add: flatNormals_def)
  show ?thesis
    unfolding s using tangents_slotsInv[OF assms(1)] tangents_flagsInv[OF assms(2)] by simp
qed

lemma morphAttribute_inv:
  assumes "morphAttribute tc ti a st = Inr st'" "slotsInv st" "flagsInv st"
  shows "slotsInv st' \<and> flagsInv st'"
proof -
  consider (tangent) "atype a = cgltf_attribute_type_tangent"
    | (normal) "atype a = cgltf_attribute_type_normal"
    | (other) "atype a \<noteq> cgltf_attribute_type_tangent" "atype a \<noteq> cgltf_attribute_type_normal"
    by blast
  then show ?thesis
  proof cases
    case tangent
    then show ?thesis using assms by (simp add: morphAttribute_def)
  next
    case normal
    then have s: "st' = storeBuffer (createTangentsBuffer (Some ti))
                          (declareAttribute (MORPH_TANGENTS tc) (slot st) SHORT4 0 0 True st)"
      using assms(1) by (auto simp: morphAttribute_def)
    show ?thesis
      unfolding s using tangents_slotsInv[OF assms(2)] tangents_flagsInv[OF assms(3)] by simp
  next
    case other
    then have b: "bindAccessor (Some (MORPH_POSITION tc)) (adata a) st = Inr st'"
      using assms(1) by (simp add: morphAttribute_def)
    have "flagsInv st'"
      using bindAccessor_dom[OF b] assms(3) by (auto simp: flagsInv_def)
    then show ?thesis using bindAccessor_slotsInv[OF b assms(2)] by simp
  qed
qed

lemma morphAttributes_inv:
  assumes "morphAttributes tc ti as st = Inr st'" "slotsInv st" "flagsInv st"
  shows "slotsInv st' \<and> flagsInv st'"
  using assms
proof (induction as arbitrary: st)
  case Nil
  then show ?case by simp
next
  case (Cons a as)
  from Cons.prems(1) obtain st1 where
    a: "morphAttribute tc ti a st = Inr st1" and r: "morphAttributes tc ti as st1 = Inr st'"
    by (auto split: sum.splits)
  show ?case
    using Cons.IH[OF r] morphAttribute_inv[OF a Cons.prems(2,3)] by simp
qed

lemma morphTargets_inv:
  assumes "morphTargets prim pidx tc st = Inr st'" "slotsInv st" "flagsInv st"
  shows "slotsInv st' \<and> flagsInv st'"
  using assms
proof (induction prim pidx tc st rule: morphTargets.induct)
  case (1 prim pidx tc st)
  show ?case
  proof (cases "tc < 4 \<and> vec_get pidx tc \<noteq> kUnused")
    case False
    then have "st' = st" using "1.prems"(1) by (auto split: if_splits)
    then show ?thesis using "1.prems" by simp
  next
    case True
    then have t: "tc < 4" and u: "vec_get pidx tc \<noteq> kUnused" by simp_all
    from "1.prems"(1) t u obtain st1 where
      rng: "\<not> length (targets prim) \<le> unat (vec_get pidx tc)"
      and a: "morphAttributes tc (unat (vec_get pidx tc))
                (targets prim ! unat (vec_get pidx tc)) st = Inr st1"
      and r: "morphTargets prim pidx (tc + 1) st1 = Inr st'"
      by (auto simp: Let_def split: if_splits sum.splits)
    show ?thesis
      using "1.IH"[OF t refl u rng a r] morphAttributes_inv[OF a "1.prems"(2,3)] by simp
  qed
qed

lemma beforeFallback_inv:
  assumes "beforeFallback prim uv pidx = Inr st"
  shows "slotsInv st \<and> flagsInv st"
proof -
  from assms obtain st1 where
    b: "baseAttributes uv (attributes prim) initial_locals = Inr st1"
    and m: "morphTargets prim pidx 0 (flatNormals prim st1) = Inr st"
    by (auto simp: beforeFallback_def split: sum.splits)
  have 1: "slotsInv st1 \<and> flagsInv st1"
    using baseAttributes_inv[OF b] slotsInv_initial by simp
  have 2: "slotsInv (flatNormals prim st1) \<and> flagsInv (flatNormals prim st1)"
    using flatNormals_inv[of st1 prim] 1 by simp
  show ?thesis
    using morphTargets_inv[OF m] 2 by simp
qed

lemma fallbackPass_result:
  "(\<forall>a. vbb (fallbackPass vc st) a =
          (if a = UV0 \<and> \<not> hasUv0 st then Some (dummyDecl USHORT2 (slot st))
           else if a = UV1 \<and> \<not> hasUv1 st then Some (dummyDecl USHORT2 (slot st))
           else if a = COLOR \<and> \<not> hasVertexColor st then Some (dummyDecl UBYTE4 (slot st))
           else vbb st a)) \<and>
   (if hasUv0 st \<and> hasUv1 st \<and> hasVertexColor st
    then buffers (fallbackPass vc st) = buffers st \<and> slot (fallbackPass vc st) = slot st
    else buffers (fallbackPass vc st) =
           storeAt (buffers st) (slot st) (Some (createDummyBuffer vc)) \<and>
         slot (fallbackPass vc st) = slot st + 1)"
  by (cases "hasUv0 st"; cases "hasUv1 st"; cases "hasVertexColor st")
     (simp_all add: fallbackPass_def storeBuffer_fields declareAttribute_fields dummyDecl_def)


lemma fallbackPass_slotsInv:
  assumes "slotsInv st"
  shows "length (buffers (fallbackPass vc st)) = max kMaxBufferCount (slot (fallbackPass vc st)) \<and>
         (\<forall>a d. vbb (fallbackPass vc st) a = Some d \<longrightarrow> bufferIndex d < slot (fallbackPass vc st))"
proof -
  let ?st' = "fallbackPass vc st"
  note r = fallbackPass_result[of vc st]
  have decl: "\<And>a. vbb ?st' a =
            (if a = UV0 \<and> \<not> hasUv0 st then Some (dummyDecl USHORT2 (slot st))
             else if a = UV1 \<and> \<not> hasUv1 st then Some (dummyDecl USHORT2 (slot st))
             else if a = COLOR \<and> \<not> hasVertexColor st then Some (dummyDecl UBYTE4 (slot st))
             else vbb st a)"
    using r by blast
  have old: "\<And>a d. vbb st a = Some d \<Longrightarrow> bufferIndex d < slot st"
    and len: "length (buffers st) = max kMaxBufferCount (slot st)"
    using assms by (auto simp: slotsInv_def)
  show ?thesis
  proof (cases "hasUv0 st \<and> hasUv1 st \<and> hasVertexColor st")
    case True
    then have "buffers ?st' = buffers st" "slot ?st' = slot st" using r by simp_all
    then show ?thesis using True old len by (auto simp: decl)
  next
    case False
    then have "slot ?st' = slot st + 1"
      "buffers ?st' = storeAt (buffers st) (slot st) (Some (createDummyBuffer vc))"
      using r by simp_all
    then show ?thesis
      using len old
      by (auto simp: decl dummyDecl_def less_Suc_eq length_storeAt split: if_splits)
  qed
qed

section \<open>The synthesizer never stops for the number of slots\<close>

lemma baseAttribute_succeeds:
  assumes "adata a \<noteq> None" "atype a \<noteq> cgltf_attribute_type_invalid"
  shows "\<exists>st'. baseAttribute uv a st = Inr st'"
proof -
  obtain acc where acc: "adata a = Some acc" using assms(1) by auto
  show ?thesis
  proof (cases "getVertexAttrType (atype a)")
    case None
    then have "atype a = cgltf_attribute_type_normal \<or> atype a = cgltf_attribute_type_tangent"
      using assms(2) by (cases "atype a") (simp_all add: getVertexAttrType_def)
    then show ?thesis by (auto simp: baseAttribute_def Let_def)
  next
    case (Some sem)
    then show ?thesis
      using acc
      by (auto simp: baseAttribute_def Let_def bindAccessor_def split: UvSet.splits)
  qed
qed

lemma baseAttributes_succeeds:
  assumes "list_all (\<lambda>a. adata a \<noteq> None \<and> atype a \<noteq> cgltf_attribute_type_invalid) as"
  shows "\<exists>st'. baseAttributes uv as st = Inr st'"
  using assms
proof (induction as arbitrary: st)
  case Nil
  then show ?case by simp
next
  case (Cons a as)
  obtain st1 where a: "baseAttribute uv a st = Inr st1"
    using baseAttribute_succeeds[of a uv st] Cons.prems by auto
  obtain st' where "baseAttributes uv as st1 = Inr st'"
    using Cons.IH[of st1] Cons.prems by auto
  then show ?case using a by simp
qed

lemma morphAttribute_succeeds:
  assumes "adata a \<noteq> None"
  shows "\<exists>st'. morphAttribute tc ti a st = Inr st'"
  using assms by (auto simp: morphAttribute_def bindAccessor_def)

lemma morphAttributes_succeeds:
  assumes "list_all (\<lambda>a. adata a \<noteq> None) as"
  shows "\<exists>st'. morphAttributes tc ti as st = Inr st'"
  using assms
proof (induction as arbitrary: st)
  case Nil
  then show ?case by simp
next
  case (Cons a as)
  obtain st1 where a: "morphAttribute tc ti a st = Inr st1"
    using morphAttribute_succeeds[of a tc ti st] Cons.prems by auto
  obtain st' where "morphAttributes tc ti as st1 = Inr st'"
    using Cons.IH[of st1] Cons.prems by auto
  then show ?case using a by simp
qed

lemma morphTargets_succeeds:
  assumes "list_all (list_all (\<lambda>a. adata a \<noteq> None)) (targets prim)"
    and "list_all (\<lambda>b. unat b < length (targets prim))
           (takeWhile (\<lambda>b. b \<noteq> kUnused) (drop tc (vec_list pidx)))"
  shows "\<exists>st'. morphTargets prim pidx tc st = Inr st'"
  using assms
proof (induction prim pidx tc st rule: morphTargets.induct)
  case (1 prim pidx tc st)
  show ?case
  proof (cases "tc < 4 \<and> vec_get pidx tc \<noteq> kUnused")
    case False
    then have "morphTargets prim pidx tc st = Inr st" by auto
    then show ?thesis by simp
  next
    case True
    then have t: "tc < 4" and u: "vec_get pidx tc \<noteq> kUnused" by simp_all
    let ?ti = "unat (vec_get pidx tc)"
    have dr: "drop tc (vec_list pidx) = vec_get pidx tc # drop (tc + 1) (vec_list pidx)"
      using t by (simp add: vec_get_nth length_vec_list Cons_nth_drop_Suc)
    have rng: "\<not> length (targets prim) \<le> ?ti"
      and rest: "list_all (\<lambda>b. unat b < length (targets prim))
                   (takeWhile (\<lambda>b. b \<noteq> kUnused) (drop (tc + 1) (vec_list pidx)))"
      using "1.prems"(2) u unfolding dr by simp_all
    have wf: "list_all (\<lambda>a. adata a \<noteq> None) (targets prim ! ?ti)"
      using "1.prems"(1) rng by (simp add: list_all_length)
    obtain st1 where a: "morphAttributes tc ?ti (targets prim ! ?ti) st = Inr st1"
      using morphAttributes_succeeds[OF wf] by blast
    obtain st' where r: "morphTargets prim pidx (tc + 1) st1 = Inr st'"
      using "1.IH"[OF t refl u rng a "1.prems"(1) rest] by blast
    have "morphTargets prim pidx tc st = morphTargets prim pidx (tc + 1) st1"
      using a t u rng by (simp add: Let_def)
    then show ?thesis using r by simp
  qed
qed

lemma built_buffer_slots:
  assumes c: "createVertexBuffer prim uv pidx engine = Inr (vb, engine')"
  shows "bufferCount (engine' ! vb) = slotsNeeded prim uv pidx \<and>
      length (bufferAt (engine' ! vb)) = bufferCount (engine' ! vb) \<and>
      (\<forall>a d. declared (engine' ! vb) a = Some d \<longrightarrow> bufferIndex d < bufferCount (engine' ! vb))"
proof -
  define st where "st = fallbackPass (computeVertexCount (attributes prim))
                          (projr (beforeFallback prim uv pidx))"
  from c obtain st3 where
    b: "beforeFallback prim uv pidx = Inr st3"
    and vb: "vb = length engine"
    and e: "engine' = engine @
              [\<lparr>vertexCount = computeVertexCount (attributes prim), bufferCount = slot st,
                declared = vbb st, bufferAt = take (slot st) (buffers st)\<rparr>]"
    by (auto simp: createVertexBuffer_def Let_def st_def split: sum.splits)
  have f: "st = fallbackPass (computeVertexCount (attributes prim)) st3"
    by (simp add: st_def b)
  have obj: "bufferCount (engine' ! vb) = slot st" "declared (engine' ! vb) = vbb st"
    "bufferAt (engine' ! vb) = take (slot st) (buffers st)"
    by (simp_all add: vb e)
  have n: "slot st = slotsNeeded prim uv pidx"
    using beforeFallback_flags[OF b] fallbackPass_flags[of "computeVertexCount (attributes prim)" st3]
    by (auto simp: slotsNeeded_def f)
  have i: "length (buffers st) = max kMaxBufferCount (slot st)"
    "\<forall>a d. vbb st a = Some d \<longrightarrow> bufferIndex d < slot st"
    using fallbackPass_slotsInv[of st3 "computeVertexCount (attributes prim)"]
      beforeFallback_inv[OF b] by (simp_all add: f)
  show ?thesis
    unfolding obj using n i by simp
qed

lemma createVertexBuffer_Inr:
  assumes "createVertexBuffer prim uv pidx engine = Inr (vb, engine')"
  shows "vb = length engine \<and> (\<exists>x. engine' = engine @ [x])"
  using assms
  by (auto simp: createVertexBuffer_def Let_def split: sum.splits)

lemma createVertexBuffer_wellFormed:
  assumes "wellFormed prim pidx"
  shows "\<exists>x. createVertexBuffer prim uv pidx engine = Inr (length engine, engine @ [x])"
proof -
  have wa: "list_all (\<lambda>a. adata a \<noteq> None \<and> atype a \<noteq> cgltf_attribute_type_invalid) (attributes prim)"
    and wt: "list_all (list_all (\<lambda>a. adata a \<noteq> None)) (targets prim)"
    and wi: "list_all (\<lambda>b. unat b < length (targets prim))
               (takeWhile (\<lambda>b. b \<noteq> kUnused) (drop 0 (vec_list pidx)))"
    using assms by (simp_all add: wellFormed_def)
  obtain st1 where b: "baseAttributes uv (attributes prim) initial_locals = Inr st1"
    using baseAttributes_succeeds[OF wa] by blast
  obtain st3 where m: "morphTargets prim pidx 0 (flatNormals prim st1) = Inr st3"
    using morphTargets_succeeds[OF wt wi] by blast
  have "beforeFallback prim uv pidx = Inr st3"
    using b m by (simp add: beforeFallback_def)
  then show ?thesis
    by (simp add: createVertexBuffer_def Let_def)
qed

text \<open>
  Claim C8. The code does not do what the claim says. \<open>slotsNeeded\<close> counts the payloads of
  a primitive: its bound base attributes, the flat normals, the attributes of the selected
  morph targets and the dummy. Whenever the synthesizer builds a vertex buffer, the buffer
  count is that count, whatever it is, with one payload per slot and every declared
  attribute on a slot below the count; and for a well-formed primitive it always builds
  one. So a primitive that needs more than \<open>kMaxBufferCount\<close> slots is not refused: its
  payloads past the sixteenth are written behind the array and the vertex buffer is built
  with more than \<open>kMaxBufferCount\<close> buffers.
\<close>

theorem createVertexBuffer_unchecked:
  "(\<forall>vb engine'. createVertexBuffer prim uv pidx engine = Inr (vb, engine') \<longrightarrow>
      bufferCount (engine' ! vb) = slotsNeeded prim uv pidx \<and>
      length (bufferAt (engine' ! vb)) = bufferCount (engine' ! vb) \<and>
      (\<forall>a d. declared (engine' ! vb) a = Some d \<longrightarrow> bufferIndex d < bufferCount (engine' ! vb))) \<and>
   (wellFormed prim pidx \<longrightarrow>
      (\<exists>x. createVertexBuffer prim uv pidx engine = Inr (length engine, engine @ [x]) \<and>
           bufferCount x = slotsNeeded prim uv pidx))"
proof -
  have "\<exists>x. createVertexBuffer prim uv pidx engine = Inr (length engine, engine @ [x]) \<and>
           bufferCount x = slotsNeeded prim uv pidx"
    if wf: "wellFormed prim pidx"
  proof -
    obtain x where c: "createVertexBuffer prim uv pidx engine = Inr (length engine, engine @ [x])"
      using createVertexBuffer_wellFormed[OF wf] by blast
    have "bufferCount ((engine @ [x]) ! length engine) = slotsNeeded prim uv pidx"
      using built_buffer_slots[OF c] by blast
    then show ?thesis using c by simp
  qed
  then show ?thesis
    using built_buffer_slots[of prim uv pidx engine] by blast
qed

section \<open>The examples evaluated\<close>

lemmas synth_defs =
  createVertexBuffer_def beforeFallback_def fallbackPass_def flatNormals_def
  baseAttribute_def bindAccessor_def storeBuffer_def storeAt_def declareAttribute_def
  morphAttribute_def
  createBufferDescriptor_def createDummyBuffer_def createTangentsBuffer_def
  computeVertexCount_def getVertexAttrType_def getNumUvSets_def uvSetRank_def
  initial_locals_def kMaxBufferCount_def vec_get_def kUnused_def

lemma replicate_16:
  "replicate 16 x = [x, x, x, x, x, x, x, x, x, x, x, x, x, x, x, x]"
  by (simp add: eval_nat_numeral)

lemma replicate_4: "replicate 4 x = [x, x, x, x]"
  by (simp add: eval_nat_numeral)

lemmas example_defs =
  examplePrimitive_def exampleUvMap_def exampleTarget_def exampleAccessor_def
  replicate_16 replicate_4

lemma example_findPrimaryIndices:
  "findPrimaryIndices [0.2, 0, 0, 0, 0.7] = Vec4 0 4 kUnused kUnused"
  by (simp add: findPrimaryIndices_def partiallySorted_def nth_element_def is_primary_def
      vec_set_def)

lemma example_findPrimaryIndices2:
  "findPrimaryIndices [0, 0.5, 0, 0, 0] = Vec4 1 kUnused kUnused kUnused"
  by (simp add: findPrimaryIndices_def partiallySorted_def nth_element_def is_primary_def
      vec_set_def)

lemma example_createVertexBuffer:
  "\<exists>vb. createVertexBuffer examplePrimitive exampleUvMap (Vec4 0 4 kUnused kUnused) engine =
          Inr (length engine, engine @ [vb]) \<and> bufferCount vb = 6 \<and>
          bufferAt vb ! 5 = Some (DummyBuffer [255, 255, 255, 255])"
  by (simp add: synth_defs example_defs Let_def)

lemma example_createVertexBuffer2:
  "\<exists>vb. createVertexBuffer examplePrimitive exampleUvMap (Vec4 1 kUnused kUnused kUnused) engine =
          Inr (length engine, engine @ [vb])"
  by (simp add: synth_defs example_defs Let_def)

lemma example_createMorphTableEntry:
  "\<exists>vb. createMorphTableEntry exampleAsset 7 (Vec4 0 4 kUnused kUnused) engine =
          Inr ([\<lparr>vertices = length engine, indices = \<lparr>ibName = 0, indexCount = 3\<rparr>,
                 ptype = TRIANGLES\<rparr>], engine @ [vb])"
proof -
  obtain vb where
    "createVertexBuffer examplePrimitive exampleUvMap (Vec4 0 4 kUnused kUnused) engine =
       Inr (length engine, engine @ [vb])"
    using example_createVertexBuffer by blast
  then show ?thesis
    by (simp add: createMorphTableEntry_def exampleAsset_def exampleMesh_def)
      (simp add: examplePrimitive_def)
qed

lemma example_createMorphTableEntry2:
  "\<exists>vb. createMorphTableEntry exampleAsset 7 (Vec4 1 kUnused kUnused kUnused) engine =
          Inr ([\<lparr>vertices = length engine, indices = \<lparr>ibName = 0, indexCount = 3\<rparr>,
                 ptype = TRIANGLES\<rparr>], engine @ [vb])"
proof -
  obtain vb where
    "createVertexBuffer examplePrimitive exampleUvMap (Vec4 1 kUnused kUnused kUnused) engine =
       Inr (length engine, engine @ [vb])"
    using example_createVertexBuffer2 by blast
  then show ?thesis
    by (simp add: createMorphTableEntry_def exampleAsset_def exampleMesh_def)
      (simp add: examplePrimitive_def)
qed

lemma example_applyWeights:
  assumes "mMorphTable s = []"
  shows "\<exists>vb. applyWeights exampleAsset 7 [0.2, 0, 0, 0, 0.7] s =
           Inr (s\<lparr>mPartiallySortedWeights := partiallySorted [0.2, 0, 0, 0, 0.7],
                  mMorphTable :=
                    [(\<lparr>targetEntity = 7, primaryIndices = Vec4 0 4 kUnused kUnused\<rparr>,
                      [\<lparr>vertices = length (built s), indices = \<lparr>ibName = 0, indexCount = 3\<rparr>,
                        ptype = TRIANGLES\<rparr>])],
                  built := built s @ [vb],
                  renderableCalls := renderableCalls s @
                    [SetGeometryAt 7 0 TRIANGLES (length (built s))
                       \<lparr>ibName = 0, indexCount = 3\<rparr> 0 3,
                     SetMorphWeights 7 (Vec4 0.2 0.7 0.2 0.2)]\<rparr>)"
proof -
  let ?ws = "[0.2, 0, 0, 0, 0.7] :: real list"
  obtain vb where c: "createMorphTableEntry exampleAsset 7 (Vec4 0 4 kUnused kUnused) (built s) =
          Inr ([\<lparr>vertices = length (built s), indices = \<lparr>ibName = 0, indexCount = 3\<rparr>,
                 ptype = TRIANGLES\<rparr>], built s @ [vb])"
    using example_createMorphTableEntry by blast
  have h: "highest ?ws (Vec4 0 4 kUnused kUnused) = Vec4 0.2 0.7 0.2 0.2"
    by (simp add: highest_def safeSet_def vec_get_def vec_set_def kUnused_def)
  have l: "4 < length ?ws" by simp
  have f: "table_find (mMorphTable s)
             \<lparr>targetEntity = 7, primaryIndices = findPrimaryIndices ?ws\<rparr> = None"
    using assms by simp
  show ?thesis
    unfolding applyWeights_miss[OF l f] example_findPrimaryIndices c h
    by (intro exI[of _ vb]) (simp add: assms setGeometry_def)
qed

theorem applyWeights_twice_witness:
  "\<exists>s1 s2. applyWeights exampleAsset 7 [0.2, 0, 0, 0, 0.7] newMorphHelper = Inr s1 \<and>
      applyWeights exampleAsset 7 [0.2, 0, 0, 0, 0.7] s1 = Inr s2 \<and>
      mMorphTable s2 = mMorphTable s1 \<and> length (mMorphTable s1) = 1 \<and>
      built s2 = built s1 \<and> length (built s1) = 1 \<and>
      renderableCalls s1 =
        [SetGeometryAt 7 0 TRIANGLES 0 \<lparr>ibName = 0, indexCount = 3\<rparr> 0 3,
         SetMorphWeights 7 (Vec4 0.2 0.7 0.2 0.2)] \<and>
      renderableCalls s2 = renderableCalls s1 @ renderableCalls s1"
proof -
  obtain s1 where a: "applyWeights exampleAsset 7 [0.2, 0, 0, 0, 0.7] newMorphHelper = Inr s1"
    and t: "length (mMorphTable s1) = 1" and b: "length (built s1) = 1"
    and c: "renderableCalls s1 =
        [SetGeometryAt 7 0 TRIANGLES 0 \<lparr>ibName = 0, indexCount = 3\<rparr> 0 3,
         SetMorphWeights 7 (Vec4 0.2 0.7 0.2 0.2)]"
    using example_applyWeights[of newMorphHelper] by (auto simp: newMorphHelper_def)
  from applyWeights_twice[OF a] obtain s2 calls where
    "applyWeights exampleAsset 7 [0.2, 0, 0, 0, 0.7] s1 = Inr s2"
    "mMorphTable s2 = mMorphTable s1" "built s2 = built s1"
    "renderableCalls s1 = renderableCalls newMorphHelper @ calls"
    "renderableCalls s2 = renderableCalls s1 @ calls"
    by blast
  then show ?thesis
    using a t b c by (auto simp: newMorphHelper_def)
qed

theorem applyWeights_uniform_witness:
  "4 < length [0.2, 0, 0, 0, 0.7 :: real] \<and>
   (\<exists>s'. applyWeights exampleAsset 7 [0.2, 0, 0, 0, 0.7] newMorphHelper = Inr s' \<and>
      last (renderableCalls s') = SetMorphWeights 7 (Vec4 0.2 0.7 0.2 0.2)) \<and>
   findPrimaryIndices [0.2, 0, 0, 0, 0.7] = Vec4 0 4 kUnused kUnused \<and>
   vec_get (highest [0.2, 0, 0, 0, 0.7] (findPrimaryIndices [0.2, 0, 0, 0, 0.7])) 1 =
     [0.2, 0, 0, 0, 0.7] ! 4 \<and>
   vec_get (highest [0.2, 0, 0, 0, 0.7] (findPrimaryIndices [0.2, 0, 0, 0, 0.7])) 2 =
     [0.2, 0, 0, 0, 0.7] ! 0"
proof -
  let ?ws = "[0.2, 0, 0, 0, 0.7] :: real list"
  obtain s' where a: "applyWeights exampleAsset 7 ?ws newMorphHelper = Inr s'"
    using example_applyWeights[of newMorphHelper] by (auto simp: newMorphHelper_def)
  have l: "4 < length ?ws" by simp
  note u = applyWeights_uniform[OF l a]
  have h: "highest ?ws (Vec4 0 4 kUnused kUnused) = Vec4 0.2 0.7 0.2 0.2"
    by (simp add: highest_def safeSet_def vec_get_def vec_set_def kUnused_def)
  have 1: "last (renderableCalls s') = SetMorphWeights 7 (Vec4 0.2 0.7 0.2 0.2)"
    using u by (simp only: example_findPrimaryIndices h)
  have e1: "vec_get (findPrimaryIndices ?ws) 1 \<noteq> kUnused"
    and e2: "vec_get (findPrimaryIndices ?ws) 2 = kUnused"
    unfolding example_findPrimaryIndices by (simp_all add: vec_get_def kUnused_def)
  have 2: "vec_get (highest ?ws (findPrimaryIndices ?ws)) 1 =
             ?ws ! unat (vec_get (findPrimaryIndices ?ws) 1)"
    using u e1 by simp
  have 3: "vec_get (highest ?ws (findPrimaryIndices ?ws)) 2 = ?ws ! 0"
    using u e2 by simp
  have "unat (vec_get (findPrimaryIndices ?ws) 1) = 4"
    unfolding example_findPrimaryIndices by (simp add: vec_get_def)
  then show ?thesis
    using a 1 2 3 example_findPrimaryIndices by auto
qed

theorem applyWeights_truncates_witness:
  "255 < length (replicate 256 (1 :: real)) \<and>
   findPrimaryIndices (replicate 256 1) = findPrimaryIndices (take 255 (replicate 256 1)) \<and>
   applyWeights exampleAsset 7 (replicate 256 1) newMorphHelper =
     applyWeights exampleAsset 7 (take 255 (replicate 256 1)) newMorphHelper"
  using applyWeights_truncates[of "replicate 256 1" exampleAsset 7 newMorphHelper]
  by simp

lemma example_applyWeights2:
  assumes "mMorphTable s =
             [(\<lparr>targetEntity = 7, primaryIndices = Vec4 0 4 kUnused kUnused\<rparr>, v)]"
  shows "\<exists>vb ps c. applyWeights exampleAsset 7 [0, 0.5, 0, 0, 0] s =
           Inr (s\<lparr>mPartiallySortedWeights := ps,
                  mMorphTable := mMorphTable s @
                    [(\<lparr>targetEntity = 7, primaryIndices = Vec4 1 kUnused kUnused kUnused\<rparr>,
                      [\<lparr>vertices = length (built s), indices = \<lparr>ibName = 0, indexCount = 3\<rparr>,
                        ptype = TRIANGLES\<rparr>])],
                  built := built s @ [vb],
                  renderableCalls := renderableCalls s @ c\<rparr>)"
proof -
  let ?ws = "[0, 0.5, 0, 0, 0] :: real list"
  obtain vb where c: "createMorphTableEntry exampleAsset 7 (Vec4 1 kUnused kUnused kUnused) (built s) =
          Inr ([\<lparr>vertices = length (built s), indices = \<lparr>ibName = 0, indexCount = 3\<rparr>,
                 ptype = TRIANGLES\<rparr>], built s @ [vb])"
    using example_createMorphTableEntry2 by blast
  have l: "4 < length ?ws" by simp
  have f: "table_find (mMorphTable s)
             \<lparr>targetEntity = 7, primaryIndices = findPrimaryIndices ?ws\<rparr> = None"
    unfolding example_findPrimaryIndices2 assms
    by (simp add: MorphKeyEqualFn_def ubyte4_eq_def)
  show ?thesis
    unfolding applyWeights_miss[OF l f] example_findPrimaryIndices2 c
    by (intro exI[of _ vb]) auto
qed

theorem destructor_destroys_once_witness:
  "\<exists>s. applyAll exampleAsset
          [(7, [0.2, 0, 0, 0, 0.7]), (7, [0, 0.5, 0, 0, 0]), (7, [0.2, 0, 0, 0, 0.7])]
          newMorphHelper = Inr s \<and>
        length (mMorphTable s) = 2 \<and> length (built s) = 2 \<and>
        destroyed (destructor s) = [0, 1]"
proof -
  let ?w1 = "[0.2, 0, 0, 0, 0.7] :: real list" and ?w2 = "[0, 0.5, 0, 0, 0] :: real list"
  let ?k1 = "\<lparr>targetEntity = 7, primaryIndices = Vec4 0 4 kUnused kUnused\<rparr>"
  obtain s1 v1 where a1: "applyWeights exampleAsset 7 ?w1 newMorphHelper = Inr s1"
    and t1: "mMorphTable s1 = [(?k1, v1)]" and b1: "length (built s1) = 1"
    using example_applyWeights[of newMorphHelper] by (auto simp: newMorphHelper_def)
  obtain s2 e2 where a2: "applyWeights exampleAsset 7 ?w2 s1 = Inr s2"
    and t2: "mMorphTable s2 = [(?k1, v1), e2]" and b2: "length (built s2) = 2"
    using example_applyWeights2[OF t1, of ] t1 b1 by auto
  have f: "table_find (mMorphTable s2)
             \<lparr>targetEntity = 7, primaryIndices = findPrimaryIndices ?w1\<rparr> = Some v1"
    unfolding example_findPrimaryIndices t2 by (simp add: MorphKeyEqualFn_refl)
  have l: "4 < length ?w1" by simp
  obtain s3 where a3: "applyWeights exampleAsset 7 ?w1 s2 = Inr s3"
    and t3: "mMorphTable s3 = mMorphTable s2" and b3: "built s3 = built s2"
    using applyWeights_hit[OF l f, of exampleAsset] by simp
  have run: "applyAll exampleAsset [(7, ?w1), (7, ?w2), (7, ?w1)] newMorphHelper = Inr s3"
    using a1 a2 a3 by simp
  have "[0..<length (built s3)] = [0, 1]"
    using b2 b3 by (simp add: upt_rec)
  moreover have "destroyed (destructor s3) = [0..<length (built s3)]"
    using destructor_destroys_once[OF run] by simp
  ultimately have "destroyed (destructor s3) = [0, 1]" by simp
  then show ?thesis
    using run t2 t3 b2 b3 by (intro exI[of _ s3]) simp
qed




lemma example_slotsNeeded:
  "slotsNeeded examplePrimitive exampleUvMap (Vec4 0 4 kUnused kUnused) = 6"
  by (simp add: slotsNeeded_def needsFlatNormals_def needsDummy_def morphSlots_def
      targetSlots_def bindsBase_def bindsUv0_def bindsUv1_def vec_list_def kUnused_def
      getNumUvSets_def uvSetRank_def example_defs)

lemma overflow_slotsNeeded:
  "slotsNeeded overflowPrimitive overflowUvMap (Vec4 0 1 2 3) = 17"
  by (simp add: slotsNeeded_def needsFlatNormals_def needsDummy_def morphSlots_def
      targetSlots_def bindsBase_def bindsUv0_def bindsUv1_def vec_list_def kUnused_def
      getNumUvSets_def uvSetRank_def overflowPrimitive_def overflowUvMap_def
      exampleDelta_def exampleNormalDelta_def)

lemma overflow_wellFormed: "wellFormed overflowPrimitive (Vec4 0 1 2 3)"
  by (simp add: wellFormed_def overflowPrimitive_def exampleDelta_def exampleNormalDelta_def
      vec_list_def kUnused_def)

lemma overflow_createVertexBuffer:
  "\<exists>vb. createVertexBuffer overflowPrimitive overflowUvMap (Vec4 0 1 2 3) engine =
          Inr (length engine, engine @ [vb]) \<and>
        bufferCount vb = 17 \<and> length (bufferAt vb) = 17 \<and>
        map_option bufferIndex (declared vb (MORPH_TANGENTS 3)) = Some 16 \<and>
        bufferAt vb ! 16 = Some (TangentsBuffer (Some 3))"
  by (simp add: synth_defs example_defs overflowPrimitive_def overflowUvMap_def
      exampleDelta_def exampleNormalDelta_def Let_def)

lemma overflow_findPrimaryIndices: "findPrimaryIndices [1, 1, 1, 1, 0] = Vec4 0 1 2 3"
  by (simp add: findPrimaryIndices_def partiallySorted_def nth_element_def is_primary_def
      vec_set_def)

lemma overflow_applyWeights:
  "\<exists>s vb. applyWeights overflowAsset 9 [1, 1, 1, 1, 0] newMorphHelper = Inr s \<and>
      built s = [vb] \<and> bufferCount vb = 17"
proof -
  let ?ws = "[1, 1, 1, 1, 0] :: real list"
  obtain vb where
    c: "createVertexBuffer overflowPrimitive overflowUvMap (Vec4 0 1 2 3) [] = Inr (0, [vb])"
    and n: "bufferCount vb = 17"
    using overflow_createVertexBuffer[of "[]"] by auto
  have e: "createMorphTableEntry overflowAsset 9 (Vec4 0 1 2 3) [] =
             Inr ([\<lparr>vertices = 0, indices = \<lparr>ibName = 1, indexCount = 3\<rparr>,
                    ptype = TRIANGLES\<rparr>], [vb])"
    using c
    by (simp add: createMorphTableEntry_def overflowAsset_def overflowMesh_def)
      (simp add: overflowPrimitive_def)
  have l: "4 < length ?ws" by simp
  have f: "table_find (mMorphTable newMorphHelper)
             \<lparr>targetEntity = 9, primaryIndices = findPrimaryIndices ?ws\<rparr> = None"
    by (simp add: newMorphHelper_def)
  show ?thesis
    unfolding applyWeights_miss[OF l f] overflow_findPrimaryIndices
    using e n by (simp add: newMorphHelper_def)
qed

theorem createVertexBuffer_unchecked_witness:
  "wellFormed overflowPrimitive (Vec4 0 1 2 3) \<and>
   slotsNeeded overflowPrimitive overflowUvMap (Vec4 0 1 2 3) = 17 \<and>
   kMaxBufferCount < slotsNeeded overflowPrimitive overflowUvMap (Vec4 0 1 2 3) \<and>
   (\<exists>vb. createVertexBuffer overflowPrimitive overflowUvMap (Vec4 0 1 2 3) [] = Inr (0, [vb]) \<and>
          bufferCount vb = 17 \<and> kMaxBufferCount < bufferCount vb \<and>
          length (bufferAt vb) = 17 \<and>
          map_option bufferIndex (declared vb (MORPH_TANGENTS 3)) = Some 16 \<and>
          bufferAt vb ! 16 = Some (TangentsBuffer (Some 3))) \<and>
   (\<exists>s vb. applyWeights overflowAsset 9 [1, 1, 1, 1, 0] newMorphHelper = Inr s \<and>
      built s = [vb] \<and> bufferCount vb = 17)"
proof -
  obtain vb where
    c: "createVertexBuffer overflowPrimitive overflowUvMap (Vec4 0 1 2 3) [] = Inr (0, [vb])"
    and d: "map_option bufferIndex (declared vb (MORPH_TANGENTS 3)) = Some 16"
      "bufferAt vb ! 16 = Some (TangentsBuffer (Some 3))"
    using overflow_createVertexBuffer[of "[]"] by auto
  have "bufferCount ([vb] ! 0) = slotsNeeded overflowPrimitive overflowUvMap (Vec4 0 1 2 3) \<and>
        length (bufferAt ([vb] ! 0)) = bufferCount ([vb] ! 0)"
    using createVertexBuffer_unchecked[of overflowPrimitive overflowUvMap "Vec4 0 1 2 3" "[]"] c
    by blast
  then have n: "bufferCount vb = 17" "length (bufferAt vb) = 17"
    by (simp_all add: overflow_slotsNeeded)
  have "\<exists>vb. createVertexBuffer overflowPrimitive overflowUvMap (Vec4 0 1 2 3) [] = Inr (0, [vb]) \<and>
          bufferCount vb = 17 \<and> kMaxBufferCount < bufferCount vb \<and>
          length (bufferAt vb) = 17 \<and>
          map_option bufferIndex (declared vb (MORPH_TANGENTS 3)) = Some 16 \<and>
          bufferAt vb ! 16 = Some (TangentsBuffer (Some 3))"
    using c d n by (intro exI[of _ vb]) (simp add: kMaxBufferCount_def)
  then show ?thesis
    using overflow_wellFormed overflow_slotsNeeded overflow_applyWeights
    by (simp add: kMaxBufferCount_def)
qed

end
